theory Spec2Isabelle
  imports Main
begin

section \<open>JavaScript values and JSON serialisation\<close>

text \<open>
  The update engine of the CLI (\<^verbatim>\<open>packages/cli/src/index.ts\<close>) works on values
  produced by \<^verbatim>\<open>JSON.parse\<close>, on plain objects built from them, and on the text
  \<^verbatim>\<open>JSON.stringify\<close> writes. A value is one of the JSON kinds, \<^verbatim>\<open>undefined\<close>, or a
  built-in function object (the members every plain object inherits from
  \<^verbatim>\<open>Object.prototype\<close>). The numbers of the model are the integers of magnitude
  below \<open>10\<^sup>2\<^sup>1\<close>, which \<^verbatim>\<open>JSON.stringify\<close> prints in decimal: the merge never
  computes with a number, it only prints it. Fractions, larger magnitudes,
  \<^verbatim>\<open>NaN\<close> and the infinities (which \<^verbatim>\<open>JSON.parse\<close> gives for a literal such as
  \<^verbatim>\<open>1e999\<close> and \<^verbatim>\<open>JSON.stringify\<close> writes as \<^verbatim>\<open>null\<close>) are not values of the model.
  Strings are lists of 8-bit code units.

  An object is the list of its own enumerable properties in property order: the
  keys that are array indices first, in ascending numeric order, then the other
  keys in the order of their creation; no key occurs twice.
\<close>

datatype jsval =
    JUndefined
  | JNull
  | JBool bool
  | JNum int
  | JStr string
  | JArr "jsval list"
  | JObj "(string \<times> jsval) list"
  | JFun string

type_synonym props = "(string \<times> jsval) list"

datatype js_error = SyntaxError string | TypeError string | SystemError string

definition error_text :: "js_error \<Rightarrow> string" where
  "error_text e = (case e of SyntaxError m \<Rightarrow> ''SyntaxError: '' @ m
                    | TypeError m \<Rightarrow> ''TypeError: '' @ m
                    | SystemError m \<Rightarrow> ''Error: '' @ m)"

definition dq :: char where
  "dq = CHR 0x22"

definition lf :: char where
  "lf = CHR 0x0A"

definition cr :: char where
  "cr = CHR 0x0D"

definition backslash :: char where
  "backslash = CHR 0x5C"

text \<open>\<^verbatim>\<open>Array.prototype.join\<close> on a list of strings.\<close>

fun join :: "string \<Rightarrow> string list \<Rightarrow> string" where
  "join sep [] = []"
| "join sep [x] = x"
| "join sep (x # y # ys) = x @ sep @ join sep (y # ys)"

text \<open>
  \<^verbatim>\<open>Number.prototype.toString\<close> on a non-negative and on any integer of magnitude
  below \<open>10\<^sup>2\<^sup>1\<close> (from there on JavaScript prints an exponent).
\<close>

fun to_dec :: "nat \<Rightarrow> string" where
  "to_dec n = (if n < 10 then [''0123456789'' ! n]
               else to_dec (n div 10) @ [''0123456789'' ! (n mod 10)])"

declare to_dec.simps [simp del]

definition number_to_string :: "int \<Rightarrow> string" where
  "number_to_string i = (if i < 0 then CHR ''-'' # to_dec (nat (- i)) else to_dec (nat i))"

text \<open>\<^verbatim>\<open>QuoteJSONString\<close> of ECMA-262, one code unit at a time.\<close>

definition quote_char :: "char \<Rightarrow> string" where
  "quote_char c =
     (if c = CHR 0x08 then [backslash, CHR ''b'']
      else if c = CHR 0x09 then [backslash, CHR ''t'']
      else if c = lf then [backslash, CHR ''n'']
      else if c = CHR 0x0C then [backslash, CHR ''f'']
      else if c = cr then [backslash, CHR ''r'']
      else if c = dq then [backslash, dq]
      else if c = backslash then [backslash, backslash]
      else if (of_char c :: nat) < 32 then
        [backslash, CHR ''u'', CHR ''0'', CHR ''0'',
         ''0123456789abcdef'' ! ((of_char c :: nat) div 16),
         ''0123456789abcdef'' ! ((of_char c :: nat) mod 16)]
      else [c])"

definition quoteJSONString :: "string \<Rightarrow> string" where
  "quoteJSONString s = dq # concat (map quote_char s) @ [dq]"

text \<open>
  \<^verbatim>\<open>SerializeJSONProperty\<close>, \<^verbatim>\<open>SerializeJSONObject\<close> and \<^verbatim>\<open>SerializeJSONArray\<close> of
  ECMA-262 with the gap and the current indentation as arguments. The result
  \<open>None\<close> is \<^verbatim>\<open>undefined\<close>: an undefined or function value has no serialisation, a
  property holding one is left out of its object, an array element holding one is
  written \<^verbatim>\<open>null\<close>.
\<close>

fun serializeJSONProperty :: "string \<Rightarrow> string \<Rightarrow> jsval \<Rightarrow> string option" where
  "serializeJSONProperty gap indent JUndefined = None"
| "serializeJSONProperty gap indent (JFun f) = None"
| "serializeJSONProperty gap indent JNull = Some ''null''"
| "serializeJSONProperty gap indent (JBool b) = Some (if b then ''true'' else ''false'')"
| "serializeJSONProperty gap indent (JNum n) = Some (number_to_string n)"
| "serializeJSONProperty gap indent (JStr s) = Some (quoteJSONString s)"
| "serializeJSONProperty gap indent (JArr xs) =
     (let stepback = indent; indent = indent @ gap;
          partial = map (\<lambda>x. case serializeJSONProperty gap indent x of
                                 None \<Rightarrow> ''null'' | Some s \<Rightarrow> s) xs
      in Some (if partial = [] then ''[]''
               else if gap = [] then ''['' @ join '','' partial @ '']''
               else ''['' @ [lf] @ indent @ join ('','' @ [lf] @ indent) partial
                    @ [lf] @ stepback @ '']''))"
| "serializeJSONProperty gap indent (JObj ps) =
     (let stepback = indent; indent = indent @ gap;
          partial = concat (map (\<lambda>(k, v). case serializeJSONProperty gap indent v of
                       None \<Rightarrow> []
                     | Some s \<Rightarrow> [quoteJSONString k @ '':'' @ (if gap = [] then [] else '' '') @ s]) ps)
      in Some (if partial = [] then ''{}''
               else if gap = [] then ''{'' @ join '','' partial @ ''}''
               else ''{'' @ [lf] @ indent @ join ('','' @ [lf] @ indent) partial
                    @ [lf] @ stepback @ ''}''))"

text \<open>\<^verbatim>\<open>JSON.stringify(value)\<close> and \<^verbatim>\<open>JSON.stringify(value, null, 2)\<close>.\<close>

definition json_stringify :: "jsval \<Rightarrow> string option" where
  "json_stringify v = serializeJSONProperty [] [] v"

definition json_stringify_indent2 :: "jsval \<Rightarrow> string option" where
  "json_stringify_indent2 v = serializeJSONProperty ''  '' [] v"

text \<open>
  \<^verbatim>\<open>hasValueChanged\<close> compares the two serialisations with \<^verbatim>\<open>!==\<close>; each is a string or
  \<^verbatim>\<open>undefined\<close>.
\<close>

definition hasValueChanged :: "jsval \<Rightarrow> jsval \<Rightarrow> bool" where
  "hasValueChanged current incoming = (json_stringify current \<noteq> json_stringify incoming)"

text \<open>
  The JSON-compatible values (nothing undefined and no function anywhere inside)
  and the six JSON kinds.
\<close>

datatype json_kind = KNull | KBool | KNum | KStr | KArr | KObj

fun json_compatible :: "jsval \<Rightarrow> bool" where
  "json_compatible JUndefined = False"
| "json_compatible (JFun f) = False"
| "json_compatible (JArr xs) = list_all json_compatible xs"
| "json_compatible (JObj ps) = list_all (\<lambda>p. json_compatible (snd p)) ps"
| "json_compatible v = True"

fun kind_of :: "jsval \<Rightarrow> json_kind option" where
  "kind_of JNull = Some KNull"
| "kind_of (JBool b) = Some KBool"
| "kind_of (JNum n) = Some KNum"
| "kind_of (JStr s) = Some KStr"
| "kind_of (JArr xs) = Some KArr"
| "kind_of (JObj ps) = Some KObj"
| "kind_of v = None"

definition first_chars :: "json_kind \<Rightarrow> char set" where
  "first_chars k = (case k of KNull \<Rightarrow> {CHR ''n''} | KBool \<Rightarrow> {CHR ''t'', CHR ''f''}
     | KNum \<Rightarrow> set ''-0123456789'' | KStr \<Rightarrow> {dq} | KArr \<Rightarrow> {CHR ''[''} | KObj \<Rightarrow> {CHR ''{''})"

section \<open>Plain objects\<close>

text \<open>
  A key is an array index when it is the decimal form of a number below
  \<open>2^32 - 1\<close>. Such keys are enumerated before all other keys of an object.
\<close>

fun parse_dec :: "int \<Rightarrow> string \<Rightarrow> int option" where
  "parse_dec acc [] = Some acc"
| "parse_dec acc (c # cs) =
     (if c = CHR ''0'' then parse_dec (10 * acc) cs
      else if c = CHR ''1'' then parse_dec (10 * acc + 1) cs
      else if c = CHR ''2'' then parse_dec (10 * acc + 2) cs
      else if c = CHR ''3'' then parse_dec (10 * acc + 3) cs
      else if c = CHR ''4'' then parse_dec (10 * acc + 4) cs
      else if c = CHR ''5'' then parse_dec (10 * acc + 5) cs
      else if c = CHR ''6'' then parse_dec (10 * acc + 6) cs
      else if c = CHR ''7'' then parse_dec (10 * acc + 7) cs
      else if c = CHR ''8'' then parse_dec (10 * acc + 8) cs
      else if c = CHR ''9'' then parse_dec (10 * acc + 9) cs
      else None)"

definition array_index :: "string \<Rightarrow> int option" where
  "array_index k =
     (case parse_dec 0 k of
        None \<Rightarrow> None
      | Some n \<Rightarrow> if k \<noteq> [] \<and> n < 4294967295 \<and> to_dec (nat n) = k then Some n else None)"

definition is_array_index :: "string \<Rightarrow> bool" where
  "is_array_index k = (array_index k \<noteq> None)"

definition has_own :: "props \<Rightarrow> string \<Rightarrow> bool" where
  "has_own ps k = (map_of ps k \<noteq> None)"

fun replace_own :: "props \<Rightarrow> string \<Rightarrow> jsval \<Rightarrow> props" where
  "replace_own [] k v = []"
| "replace_own ((k', v') # ps) k v =
     (if k' = k then (k, v) # ps else (k', v') # replace_own ps k v)"

fun insert_index :: "props \<Rightarrow> string \<Rightarrow> int \<Rightarrow> jsval \<Rightarrow> props" where
  "insert_index [] k n v = [(k, v)]"
| "insert_index ((k', v') # ps) k n v =
     (case array_index k' of
        Some n' \<Rightarrow> if n' < n then (k', v') # insert_index ps k n v else (k, v) # (k', v') # ps
      | None \<Rightarrow> (k, v) # (k', v') # ps)"

text \<open>
  \<^verbatim>\<open>CreateDataProperty\<close>: an own key keeps its place and takes the new value; a new
  key is placed by property order.
\<close>

definition define_own :: "props \<Rightarrow> string \<Rightarrow> jsval \<Rightarrow> props" where
  "define_own ps k v =
     (if has_own ps k then replace_own ps k v
      else case array_index k of
             Some n \<Rightarrow> insert_index ps k n v
           | None \<Rightarrow> ps @ [(k, v)])"

text \<open>
  What a plain object inherits from \<^verbatim>\<open>Object.prototype\<close>: eleven function-valued
  data properties and the accessor \<^verbatim>\<open>__proto__\<close>, whose getter returns the prototype
  itself. The prototype has no enumerable property of its own, so it is serialised
  like the empty object, which stands for it here.
\<close>

definition object_prototype_functions :: "string list" where
  "object_prototype_functions =
     [''constructor'', ''__defineGetter__'', ''__defineSetter__'', ''hasOwnProperty'',
      ''__lookupGetter__'', ''__lookupSetter__'', ''isPrototypeOf'', ''propertyIsEnumerable'',
      ''toString'', ''valueOf'', ''toLocaleString'']"

definition object_prototype_get :: "string \<Rightarrow> jsval option" where
  "object_prototype_get k =
     (if k = ''__proto__'' then Some (JObj [])
      else if k \<in> set object_prototype_functions then Some (JFun k)
      else None)"

text \<open>
  The four operations the merge applies to a plain object \<open>o\<close>: \<^verbatim>\<open>k in o\<close>,
  \<^verbatim>\<open>o[k]\<close>, \<^verbatim>\<open>o[k] = v\<close> and \<^verbatim>\<open>delete o[k]\<close>. The first two follow the prototype
  chain. An assignment to \<^verbatim>\<open>__proto__\<close> that is not an own key runs the inherited
  setter, which may change the prototype and creates no own property; any other
  assignment creates or updates an own property.
\<close>

definition js_in :: "string \<Rightarrow> props \<Rightarrow> bool" where
  "js_in k ps = (has_own ps k \<or> object_prototype_get k \<noteq> None)"

definition js_get :: "props \<Rightarrow> string \<Rightarrow> jsval" where
  "js_get ps k =
     (case map_of ps k of
        Some v \<Rightarrow> v
      | None \<Rightarrow> (case object_prototype_get k of Some v \<Rightarrow> v | None \<Rightarrow> JUndefined))"

definition js_set :: "props \<Rightarrow> string \<Rightarrow> jsval \<Rightarrow> props" where
  "js_set ps k v =
     (if \<not> has_own ps k \<and> k = ''__proto__'' then ps else define_own ps k v)"

definition js_delete :: "props \<Rightarrow> string \<Rightarrow> props" where
  "js_delete ps k = filter (\<lambda>p. fst p \<noteq> k) ps"

text \<open>
  Array elements and the code units of a string as index-keyed properties
  (the own enumerable properties of an array and of a string).
\<close>

fun index_props :: "nat \<Rightarrow> jsval list \<Rightarrow> props" where
  "index_props i [] = []"
| "index_props i (x # xs) = (to_dec i, x) # index_props (Suc i) xs"

text \<open>The object spread \<^verbatim>\<open>{ ...v }\<close>: a copy of the own enumerable properties.\<close>

fun spread :: "jsval \<Rightarrow> props" where
  "spread (JObj ps) = ps"
| "spread (JArr xs) = index_props 0 xs"
| "spread (JStr s) = index_props 0 (map (\<lambda>c. JStr [c]) s)"
| "spread v = []"

text \<open>\<^verbatim>\<open>Object.entries(v)\<close>, which throws on \<^verbatim>\<open>null\<close> and \<^verbatim>\<open>undefined\<close>.\<close>

fun object_entries :: "jsval \<Rightarrow> js_error + props" where
  "object_entries JNull = Inl (TypeError ''Cannot convert undefined or null to object'')"
| "object_entries JUndefined = Inl (TypeError ''Cannot convert undefined or null to object'')"
| "object_entries v = Inr (spread v)"

text \<open>
  \<^verbatim>\<open>currentJson[key]\<close> for the manifest field names the merge looks up (the
  protected and the merge fields): none of them is an array index, a length or an
  inherited name, so the read throws on \<^verbatim>\<open>null\<close> and yields \<^verbatim>\<open>undefined\<close> on every
  value that is not an object.
\<close>

fun get_field :: "jsval \<Rightarrow> string \<Rightarrow> js_error + jsval" where
  "get_field JNull key = Inl (TypeError ''Cannot read properties of null'')"
| "get_field JUndefined key = Inl (TypeError ''Cannot read properties of undefined'')"
| "get_field (JObj ps) key = Inr (js_get ps key)"
| "get_field v key = Inr JUndefined"

text \<open>\<^verbatim>\<open>typeof v === "object" && v !== null\<close>.\<close>

fun is_object :: "jsval \<Rightarrow> bool" where
  "is_object (JObj ps) = True"
| "is_object (JArr xs) = True"
| "is_object v = False"

section \<open>Strings\<close>

text \<open>
  \<^verbatim>\<open>startsWith\<close>, \<^verbatim>\<open>includes\<close>, \<^verbatim>\<open>split("\n")\<close> and \<^verbatim>\<open>trim\<close> (on 8-bit
  code units the white space is tab, line feed, vertical tab, form feed, carriage
  return, space and no-break space).
\<close>

fun starts_with :: "string \<Rightarrow> string \<Rightarrow> bool" where
  "starts_with s [] = True"
| "starts_with [] (p # ps) = False"
| "starts_with (c # cs) (p # ps) = (c = p \<and> starts_with cs ps)"

fun str_includes :: "string \<Rightarrow> string \<Rightarrow> bool" where
  "str_includes [] sub = (sub = [])"
| "str_includes (c # cs) sub = (starts_with (c # cs) sub \<or> str_includes cs sub)"

fun split_lines :: "string \<Rightarrow> string list" where
  "split_lines [] = [[]]"
| "split_lines (c # cs) =
     (if c = lf then [] # split_lines cs
      else case split_lines cs of l # ls \<Rightarrow> (c # l) # ls | [] \<Rightarrow> [[c]])"

definition is_ws :: "char \<Rightarrow> bool" where
  "is_ws c = (c = CHR 0x09 \<or> c = lf \<or> c = CHR 0x0B \<or> c = CHR 0x0C \<or> c = cr
              \<or> c = CHR '' '' \<or> c = CHR 0xA0)"

definition trim :: "string \<Rightarrow> string" where
  "trim s = rev (dropWhile is_ws (rev (dropWhile is_ws s)))"

text \<open>\<^verbatim>\<open>padStart(2, "0")\<close>.\<close>

definition pad_start2 :: "string \<Rightarrow> string" where
  "pad_start2 s = replicate (2 - length s) (CHR ''0'') @ s"

section \<open>Conflict markers\<close>

record ConflictMarker =
  cm_start :: string
  cm_mid :: string
  cm_end :: string
  cm_template :: string
  cm_current :: string

definition createConflictMarkers :: "nat \<Rightarrow> string \<Rightarrow> ConflictMarker" where
  "createConflictMarkers counter originalKey =
     (let id = pad_start2 (to_dec counter)
      in \<lparr> cm_start = ''conf-start::'' @ id,
           cm_mid = ''conf-mid::'' @ id,
           cm_end = ''conf-end::'' @ id,
           cm_template = ''tmpl::'' @ originalKey,
           cm_current = ''curr::'' @ originalKey \<rparr>)"

text \<open>
  The two regular-expression replacements of \<^verbatim>\<open>transformToGitConflicts\<close>.
  \<^verbatim>\<open>line.replace(/"tmpl::([^"]+)"/, '"$1"')\<close> rewrites the first place where a double
  quote and the marker prefix are followed by one or more characters other than a
  double quote and then by a double quote: the prefix is dropped there.
  \<^verbatim>\<open>.replace(/,(?!.*,)/, "")\<close> removes the first comma after which no comma follows
  before the next line terminator.
\<close>

definition marker_match :: "string \<Rightarrow> string \<Rightarrow> bool" where
  "marker_match pfx s =
     (starts_with s (dq # pfx) \<and>
      (let rest = drop (Suc (length pfx)) s; run = takeWhile (\<lambda>c. c \<noteq> dq) rest
       in run \<noteq> [] \<and> length run < length rest))"

fun replace_marker :: "string \<Rightarrow> string \<Rightarrow> string" where
  "replace_marker pfx [] = []"
| "replace_marker pfx (c # cs) =
     (if marker_match pfx (c # cs) then dq # drop (length pfx) cs
      else c # replace_marker pfx cs)"

fun remove_last_comma :: "string \<Rightarrow> string" where
  "remove_last_comma [] = []"
| "remove_last_comma (c # cs) =
     (if c = CHR '','' \<and> CHR '','' \<notin> set (takeWhile (\<lambda>x. x \<noteq> lf \<and> x \<noteq> cr) cs) then cs
      else c # remove_last_comma cs)"

text \<open>
  \<^verbatim>\<open>findNextNonConflictLine(i + 1)\<close> reads the lines after line \<open>i\<close>; it is given
  that suffix.
\<close>

fun findNextNonConflictLine :: "string list \<Rightarrow> string option" where
  "findNextNonConflictLine [] = None"
| "findNextNonConflictLine (l # ls) =
     (let line = trim l
      in if line \<noteq> []
            \<and> \<not> starts_with line (dq # ''conf-end'')
            \<and> \<not> starts_with line (dq # ''conf-mid'')
            \<and> \<not> starts_with line (dq # ''tmpl::'')
            \<and> \<not> starts_with line (dq # ''curr::'')
         then Some line
         else findNextNonConflictLine ls)"

text \<open>
  The loop of \<^verbatim>\<open>transformToGitConflicts\<close> over the lines, with the flag
  \<^verbatim>\<open>inConflict\<close>; the result is the list \<^verbatim>\<open>result\<close>.
\<close>

fun transform_lines :: "bool \<Rightarrow> string list \<Rightarrow> string list" where
  "transform_lines inConflict [] = []"
| "transform_lines inConflict (line # rest) =
     (let trimmedLine = trim line
      in if str_includes line (dq # ''conf-start::'') then
           ''<<<<<<< Local Package'' # transform_lines True rest
         else if str_includes line (dq # ''conf-mid::'') then
           ''======='' # transform_lines inConflict rest
         else if str_includes line (dq # ''conf-end::'') then
           ''>>>>>>> Template'' # transform_lines False rest
         else if inConflict \<and> starts_with trimmedLine (dq # ''tmpl::'') then
           (let needsComma = (case findNextNonConflictLine rest of
                                None \<Rightarrow> False | Some l \<Rightarrow> starts_with l [dq]);
                processedLine = remove_last_comma (replace_marker ''tmpl::'' line)
            in (processedLine @ (if needsComma then '','' else []) @ '' // From template'')
               # transform_lines inConflict rest)
         else if inConflict \<and> starts_with trimmedLine (dq # ''curr::'') then
           (let needsComma = (case findNextNonConflictLine rest of
                                None \<Rightarrow> False | Some l \<Rightarrow> starts_with l [dq]);
                processedLine = remove_last_comma (replace_marker ''curr::'' line)
            in (processedLine @ (if needsComma then '','' else [])) # transform_lines inConflict rest)
         else line # transform_lines inConflict rest)"

definition transformToGitConflicts :: "string \<Rightarrow> string" where
  "transformToGitConflicts jsonString = join [lf] (transform_lines False (split_lines jsonString))"

section \<open>The package.json handler\<close>

record Logger =
  verbose :: bool
  logs :: "string list"
  console :: "string list"

text \<open>\<^verbatim>\<open>Logger.log\<close>: to the console when verbose, otherwise into the buffer.\<close>

definition log :: "Logger \<Rightarrow> string \<Rightarrow> Logger" where
  "log logger message =
     (if verbose logger then logger\<lparr>console := console logger @ [message]\<rparr>
      else logger\<lparr>logs := logs logger @ [message]\<rparr>)"

definition PACKAGE_JSON_PROTECTED_FIELDS :: "string set" where
  "PACKAGE_JSON_PROTECTED_FIELDS =
     {''name'', ''version'', ''private'', ''description'', ''author'', ''license'',
      ''repository'', ''bugs'', ''homepage''}"

definition PACKAGE_JSON_MERGE_FIELDS :: "string set" where
  "PACKAGE_JSON_MERGE_FIELDS =
     {''dependencies'', ''devDependencies'', ''peerDependencies'', ''scripts''}"

text \<open>
  One round of the inner loop of \<^verbatim>\<open>merge\<close>, over the entries of an incoming merge
  field; the state is \<^verbatim>\<open>mergedObject\<close> and \<^verbatim>\<open>conflictCounter\<close>.
\<close>

definition merge_sub_entry :: "props \<times> nat \<Rightarrow> string \<times> jsval \<Rightarrow> props \<times> nat" where
  "merge_sub_entry st e =
     (case st of (mergedObject, conflictCounter) \<Rightarrow>
      case e of (subKey, subValue) \<Rightarrow>
        if \<not> js_in subKey mergedObject then
          (js_set mergedObject subKey subValue, conflictCounter)
        else if hasValueChanged (js_get mergedObject subKey) subValue then
          (let markers = createConflictMarkers conflictCounter subKey;
               originalValue = js_get mergedObject subKey;
               m0 = js_delete mergedObject subKey;
               m1 = js_set m0 (cm_start markers) (JStr []);
               m2 = js_set m1 (cm_current markers) originalValue;
               m3 = js_set m2 (cm_mid markers) (JStr []);
               m4 = js_set m3 (cm_template markers) subValue;
               m5 = js_set m4 (cm_end markers) (JStr [])
           in (m5, Suc conflictCounter))
        else (mergedObject, conflictCounter))"

text \<open>
  One round of the outer loop, over the entries of the incoming document; the
  state is \<^verbatim>\<open>result\<close> and \<^verbatim>\<open>conflictCounter\<close>. A read of a field of \<^verbatim>\<open>currentJson\<close>
  may throw.
\<close>

definition merge_entry :: "jsval \<Rightarrow> props \<times> nat \<Rightarrow> string \<times> jsval \<Rightarrow> js_error + props \<times> nat" where
  "merge_entry currentJson st e =
     (case st of (result, conflictCounter) \<Rightarrow>
      case e of (key, incomingValue) \<Rightarrow>
        if key \<in> PACKAGE_JSON_PROTECTED_FIELDS then
          (case get_field currentJson key of
             Inl err \<Rightarrow> Inl err
           | Inr v \<Rightarrow> Inr (js_set result key v, conflictCounter))
        else if key \<in> PACKAGE_JSON_MERGE_FIELDS \<and> is_object incomingValue then
          (case get_field currentJson key of
             Inl err \<Rightarrow> Inl err
           | Inr cv \<Rightarrow>
              (case object_entries incomingValue of
                 Inl err \<Rightarrow> Inl err
               | Inr es \<Rightarrow>
                  (case foldl merge_sub_entry (spread cv, conflictCounter) es of
                     (mergedObject, counter') \<Rightarrow>
                       Inr (js_set result key (JObj mergedObject), counter'))))
        else Inr (js_set result key incomingValue, conflictCounter))"

fun merge_entries :: "jsval \<Rightarrow> props \<times> nat \<Rightarrow> props \<Rightarrow> js_error + props \<times> nat" where
  "merge_entries currentJson st [] = Inr st"
| "merge_entries currentJson st (e # es) =
     (case merge_entry currentJson st e of
        Inl err \<Rightarrow> Inl err
      | Inr st' \<Rightarrow> merge_entries currentJson st' es)"

text \<open>
  The merged mapping \<^verbatim>\<open>result\<close> that \<^verbatim>\<open>merge\<close> builds from the two parsed documents,
  before it is serialised.
\<close>

definition merge_json :: "jsval \<Rightarrow> jsval \<Rightarrow> js_error + props" where
  "merge_json currentJson incomingJson =
     (let result = spread currentJson
      in case object_entries incomingJson of
           Inl err \<Rightarrow> Inl err
         | Inr es \<Rightarrow>
            (case merge_entries currentJson (result, 0) es of
               Inl err \<Rightarrow> Inl err
             | Inr (result', counter) \<Rightarrow> Inr result'))"

text \<open>
  The body of the \<^verbatim>\<open>try\<close> block, first from the two parsed documents on, then
  whole. \<^verbatim>\<open>JSON.parse\<close> is a parameter: a function from the text to the parsed
  value or to the error it throws.
\<close>

definition merge_parsed :: "jsval \<Rightarrow> jsval \<Rightarrow> js_error + string" where
  "merge_parsed currentJson incomingJson =
     (case merge_json currentJson incomingJson of
        Inl err \<Rightarrow> Inl err
      | Inr result \<Rightarrow>
         (case json_stringify_indent2 (JObj result) of
            None \<Rightarrow> Inl (TypeError ''Cannot read properties of undefined'')
          | Some jsonString \<Rightarrow> Inr (transformToGitConflicts jsonString)))"

definition merge_try :: "(string \<Rightarrow> js_error + jsval) \<Rightarrow> string \<Rightarrow> string \<Rightarrow> js_error + string" where
  "merge_try json_parse current incoming =
     (case json_parse current of
        Inl err \<Rightarrow> Inl err
      | Inr currentJson \<Rightarrow>
         (case json_parse incoming of
            Inl err \<Rightarrow> Inl err
          | Inr incomingJson \<Rightarrow> merge_parsed currentJson incomingJson))"

text \<open>
  \<^verbatim>\<open>packageJsonHandler.merge\<close>: the \<^verbatim>\<open>try\<close> block with its \<^verbatim>\<open>catch\<close>. It returns the
  text and the logger.
\<close>

definition merge :: "(string \<Rightarrow> js_error + jsval) \<Rightarrow> string \<Rightarrow> string \<Rightarrow> Logger \<Rightarrow> string \<times> Logger" where
  "merge json_parse current incoming logger =
     (case merge_try json_parse current incoming of
        Inr text \<Rightarrow> (text, logger)
      | Inl error \<Rightarrow>
          (current,
           log logger (''Warning: Failed to merge package.json, using current version: ''
                       @ error_text error)))"

text \<open>\<^verbatim>\<open>path.basename\<close> of a POSIX path.\<close>

definition path_basename :: "string \<Rightarrow> string" where
  "path_basename p =
     rev (takeWhile (\<lambda>c. c \<noteq> CHR ''/'') (dropWhile (\<lambda>c. c = CHR ''/'') (rev p)))"

record SpecialFileHandler =
  shouldHandle :: "string \<Rightarrow> bool"
  merge_fn :: "string \<Rightarrow> string \<Rightarrow> Logger \<Rightarrow> string \<times> Logger"

definition packageJsonHandler :: "(string \<Rightarrow> js_error + jsval) \<Rightarrow> SpecialFileHandler" where
  "packageJsonHandler json_parse =
     \<lparr> shouldHandle = (\<lambda>filePath. path_basename filePath = ''package.json''),
       merge_fn = merge json_parse \<rparr>"

definition SPECIAL_FILE_HANDLERS :: "(string \<Rightarrow> js_error + jsval) \<Rightarrow> SpecialFileHandler list" where
  "SPECIAL_FILE_HANDLERS json_parse = [packageJsonHandler json_parse]"

text \<open>
  \<^verbatim>\<open>handleSpecialFile\<close>: the first handler that accepts the path decides. The current
  content is \<open>None\<close> for \<^verbatim>\<open>null\<close>; \<^verbatim>\<open>!currentContent\<close> holds for \<^verbatim>\<open>null\<close> and for the
  empty string.
\<close>

fun handle_with :: "SpecialFileHandler list \<Rightarrow> string \<Rightarrow> string option \<Rightarrow> string \<Rightarrow> Logger \<Rightarrow> string \<times> Logger" where
  "handle_with [] filePath currentContent incomingContent logger = (incomingContent, logger)"
| "handle_with (handler # handlers) filePath currentContent incomingContent logger =
     (if shouldHandle handler filePath then
        (case currentContent of
           None \<Rightarrow> (incomingContent, logger)
         | Some c \<Rightarrow> if c = [] then (incomingContent, logger)
                     else merge_fn handler c incomingContent logger)
      else handle_with handlers filePath currentContent incomingContent logger)"

definition handleSpecialFile :: "(string \<Rightarrow> js_error + jsval) \<Rightarrow> string \<Rightarrow> string option \<Rightarrow> string \<Rightarrow> Logger \<Rightarrow> string \<times> Logger" where
  "handleSpecialFile json_parse filePath currentContent incomingContent logger =
     handle_with (SPECIAL_FILE_HANDLERS json_parse) filePath currentContent incomingContent logger"

section \<open>Paths and the file system\<close>

text \<open>
  \<^verbatim>\<open>path.join\<close>, \<^verbatim>\<open>path.normalize\<close>, \<^verbatim>\<open>path.dirname\<close> and \<^verbatim>\<open>path.relative\<close> of Node
  for POSIX paths. \<^verbatim>\<open>path.relative\<close> resolves both paths against the working
  directory, which the model does not have: it is given two absolute paths (the
  directory of the template clone lies under \<^verbatim>\<open>os.tmpdir()\<close>) or two relative
  paths that do not lead above the working directory, where the result does not
  depend on it.
\<close>

fun split_on :: "char \<Rightarrow> string \<Rightarrow> string list" where
  "split_on d [] = [[]]"
| "split_on d (c # cs) =
     (if c = d then [] # split_on d cs
      else case split_on d cs of l # ls \<Rightarrow> (c # l) # ls | [] \<Rightarrow> [[c]])"

fun normalize_segments :: "bool \<Rightarrow> string list \<Rightarrow> string list \<Rightarrow> string list" where
  "normalize_segments allowAboveRoot res [] = res"
| "normalize_segments allowAboveRoot res (seg # segs) =
     (if seg = [] \<or> seg = ''.'' then normalize_segments allowAboveRoot res segs
      else if seg = ''..'' then
        (if res \<noteq> [] \<and> last res \<noteq> ''..'' then normalize_segments allowAboveRoot (butlast res) segs
         else if allowAboveRoot then normalize_segments allowAboveRoot (res @ [''..'']) segs
         else normalize_segments allowAboveRoot res segs)
      else normalize_segments allowAboveRoot (res @ [seg]) segs)"

definition path_normalize :: "string \<Rightarrow> string" where
  "path_normalize p =
     (if p = [] then ''.''
      else let isAbsolute = (hd p = CHR ''/''); trailingSeparator = (last p = CHR ''/'');
               s = join ''/'' (normalize_segments (\<not> isAbsolute) [] (split_on (CHR ''/'') p))
           in if s = [] then (if isAbsolute then ''/'' else if trailingSeparator then ''./'' else ''.'')
              else (if isAbsolute then ''/'' else []) @ s @ (if trailingSeparator then ''/'' else []))"

definition path_join :: "string list \<Rightarrow> string" where
  "path_join parts =
     (let joined = join ''/'' (filter (\<lambda>a. a \<noteq> []) parts)
      in if joined = [] then ''.'' else path_normalize joined)"

definition path_dirname :: "string \<Rightarrow> string" where
  "path_dirname p =
     (if p = [] then ''.''
      else let hasRoot = (hd p = CHR ''/'');
               r = dropWhile (\<lambda>c. c = CHR ''/'') (rev (tl p));
               after = dropWhile (\<lambda>c. c \<noteq> CHR ''/'') r
           in if after = [] then (if hasRoot then ''/'' else ''.'')
              else if hasRoot \<and> tl after = [] then ''//''
              else hd p # rev (tl after))"

fun drop_common :: "string list \<Rightarrow> string list \<Rightarrow> string list \<times> string list" where
  "drop_common (a # as) (b # bs) = (if a = b then drop_common as bs else (a # as, b # bs))"
| "drop_common as bs = (as, bs)"

definition path_relative :: "string \<Rightarrow> string \<Rightarrow> string" where
  "path_relative from to =
     (case drop_common
             (filter (\<lambda>a. a \<noteq> [] \<and> a \<noteq> ''.'') (split_on (CHR ''/'') (path_normalize from)))
             (filter (\<lambda>a. a \<noteq> [] \<and> a \<noteq> ''.'') (split_on (CHR ''/'') (path_normalize to))) of
        (up, down) \<Rightarrow> join ''/'' (map (\<lambda>a. ''..'') up @ down))"

text \<open>
  The file system: the content of every file, and for every directory the names
  of its sub-directories in the order \<^verbatim>\<open>readdir\<close> lists them.
\<close>

record FileSystem =
  files :: "string \<rightharpoonup> string"
  dirs :: "string \<rightharpoonup> string list"

definition existsSync :: "FileSystem \<Rightarrow> string \<Rightarrow> bool" where
  "existsSync fs p = (files fs p \<noteq> None \<or> dirs fs p \<noteq> None)"

definition readFile :: "FileSystem \<Rightarrow> string \<Rightarrow> js_error + string" where
  "readFile fs p =
     (case files fs p of
        Some content \<Rightarrow> Inr content
      | None \<Rightarrow> Inl (SystemError (if dirs fs p \<noteq> None then ''EISDIR'' else ''ENOENT'')))"

definition writeFile :: "FileSystem \<Rightarrow> string \<Rightarrow> string \<Rightarrow> FileSystem" where
  "writeFile fs p content = fs\<lparr>files := (files fs)(p \<mapsto> content)\<rparr>"

definition unlink :: "FileSystem \<Rightarrow> string \<Rightarrow> js_error + FileSystem" where
  "unlink fs p =
     (case files fs p of
        Some content \<Rightarrow> Inr (fs\<lparr>files := (files fs)(p := None)\<rparr>)
      | None \<Rightarrow> Inl (SystemError ''ENOENT''))"

text \<open>
  \<^verbatim>\<open>mkdir(p, { recursive: true })\<close>: every missing directory on the way to \<open>p\<close> is
  created and entered into the listing of its parent.
\<close>

fun make_dirs :: "FileSystem \<Rightarrow> string \<Rightarrow> string list \<Rightarrow> FileSystem" where
  "make_dirs fs parent [] = fs"
| "make_dirs fs parent (seg # segs) =
     (let p = (if parent = ''/'' then parent @ seg else if parent = [] then seg else parent @ ''/'' @ seg)
      in if dirs fs p \<noteq> None then make_dirs fs p segs
         else make_dirs
                (fs\<lparr>dirs := (case dirs fs parent of
                                  None \<Rightarrow> (dirs fs)(p \<mapsto> [])
                                | Some names \<Rightarrow> (dirs fs)(p \<mapsto> [], parent \<mapsto> names @ [seg]))\<rparr>)
                p segs)"

definition mkdir_recursive :: "FileSystem \<Rightarrow> string \<Rightarrow> FileSystem" where
  "mkdir_recursive fs p =
     make_dirs fs (if p \<noteq> [] \<and> hd p = CHR ''/'' then ''/'' else [])
       (filter (\<lambda>a. a \<noteq> [] \<and> a \<noteq> ''.'') (split_on (CHR ''/'') (path_normalize p)))"

section \<open>Workspaces\<close>

record WorkspaceInfo =
  ws_path :: string
  packageName :: jsval

text \<open>
  \<^verbatim>\<open>getWorkspaceInfo\<close>: \<open>None\<close> is \<^verbatim>\<open>null\<close>, returned when the manifest does not
  exist and when reading, parsing or the read of \<^verbatim>\<open>pkgJson.name\<close> throws.
\<close>

definition getWorkspaceInfo :: "(string \<Rightarrow> js_error + jsval) \<Rightarrow> FileSystem \<Rightarrow> string \<Rightarrow> WorkspaceInfo option" where
  "getWorkspaceInfo json_parse fs workspacePath =
     (let pkgJsonPath = path_join [workspacePath, ''package.json'']
      in if \<not> existsSync fs pkgJsonPath then None
         else case readFile fs pkgJsonPath of
                Inl err \<Rightarrow> None
              | Inr content \<Rightarrow>
                 (case json_parse content of
                    Inl err \<Rightarrow> None
                  | Inr pkgJson \<Rightarrow>
                     (case get_field pkgJson ''name'' of
                        Inl err \<Rightarrow> None
                      | Inr name \<Rightarrow> Some \<lparr> ws_path = workspacePath, packageName = name \<rparr>)))"

text \<open>
  The comparison \<^verbatim>\<open>===\<close> of two values that come from different calls of
  \<^verbatim>\<open>JSON.parse\<close>: primitives are compared by value, two objects or arrays are never
  the same object.
\<close>

fun strict_equals :: "jsval \<Rightarrow> jsval \<Rightarrow> bool" where
  "strict_equals JUndefined JUndefined = True"
| "strict_equals JNull JNull = True"
| "strict_equals (JBool a) (JBool b) = (a = b)"
| "strict_equals (JNum a) (JNum b) = (a = b)"
| "strict_equals (JStr a) (JStr b) = (a = b)"
| "strict_equals a b = False"

text \<open>
  The loop of \<^verbatim>\<open>findMatchingTemplateWorkspace\<close> over the candidate paths;
  \<^verbatim>\<open>templateWorkspace?.packageName\<close> is \<^verbatim>\<open>undefined\<close> when there is no workspace
  information.
\<close>

fun first_matching :: "(string \<Rightarrow> js_error + jsval) \<Rightarrow> FileSystem \<Rightarrow> WorkspaceInfo \<Rightarrow> string list \<Rightarrow> string option" where
  "first_matching json_parse fs workspace [] = None"
| "first_matching json_parse fs workspace (possiblePath # rest) =
     (let templateName = (case getWorkspaceInfo json_parse fs possiblePath of
                            None \<Rightarrow> JUndefined
                          | Some templateWorkspace \<Rightarrow> packageName templateWorkspace)
      in if strict_equals templateName (packageName workspace) then Some possiblePath
         else first_matching json_parse fs workspace rest)"

definition findMatchingTemplateWorkspace :: "(string \<Rightarrow> js_error + jsval) \<Rightarrow> FileSystem \<Rightarrow> WorkspaceInfo \<Rightarrow> string \<Rightarrow> string option" where
  "findMatchingTemplateWorkspace json_parse fs workspace tempDir =
     (let workspaceName = path_basename (ws_path workspace);
          possiblePaths = [path_join [tempDir, ''packages'', workspaceName],
                           path_join [tempDir, ''apps'', workspaceName]]
      in first_matching json_parse fs workspace possiblePaths)"

text \<open>\<^verbatim>\<open>findWorkspaces\<close>: a directory that cannot be read has no workspaces.\<close>

definition findWorkspaces :: "FileSystem \<Rightarrow> string \<Rightarrow> string list" where
  "findWorkspaces fs projectPath =
     (case dirs fs projectPath of
        None \<Rightarrow> []
      | Some names \<Rightarrow> map (\<lambda>name. path_join [projectPath, name]) names)"

definition getTemplateWorkspaces :: "FileSystem \<Rightarrow> string \<Rightarrow> string option \<times> string option" where
  "getTemplateWorkspaces fs tempDir =
     (let templateLibraryPath = path_join [tempDir, ''packages/template-library''];
          templateAppPath = path_join [tempDir, ''apps/template-app'']
      in (if existsSync fs templateLibraryPath then Some templateLibraryPath else None,
          if existsSync fs templateAppPath then Some templateAppPath else None))"

section \<open>Applying one change\<close>

datatype DiffEntry =
    AddEntry string string
  | ModifyEntry string string
  | DeleteEntry string

fun diff_path :: "DiffEntry \<Rightarrow> string" where
  "diff_path (AddEntry p c) = p"
| "diff_path (ModifyEntry p c) = p"
| "diff_path (DeleteEntry p) = p"

fun with_path :: "DiffEntry \<Rightarrow> string \<Rightarrow> DiffEntry" where
  "with_path (AddEntry p c) q = AddEntry q c"
| "with_path (ModifyEntry p c) q = ModifyEntry q c"
| "with_path (DeleteEntry p) q = DeleteEntry q"

text \<open>
  \<^verbatim>\<open>applyDiff\<close> changes the file system and may throw (a read of an existing
  path that is not a file does): its result is the error thrown, if any, with the
  file system and the logger as they are at that moment.
\<close>

definition write_entry :: "(string \<Rightarrow> js_error + jsval) \<Rightarrow> string \<Rightarrow> string \<Rightarrow> string \<Rightarrow> FileSystem \<Rightarrow> Logger \<Rightarrow> js_error option \<times> FileSystem \<times> Logger" where
  "write_entry json_parse projectPath p content fs logger =
     (let targetPath = path_join [projectPath, p];
          fs1 = mkdir_recursive fs (path_dirname targetPath)
      in case (if existsSync fs1 targetPath
               then (case readFile fs1 targetPath of Inl err \<Rightarrow> Inl err | Inr c \<Rightarrow> Inr (Some c))
               else Inr None) of
           Inl err \<Rightarrow> (Some err, fs1, logger)
         | Inr currentContent \<Rightarrow>
            (case handleSpecialFile json_parse p currentContent content logger of
               (finalContent, logger') \<Rightarrow> (None, writeFile fs1 targetPath finalContent, logger')))"

fun applyDiff :: "(string \<Rightarrow> js_error + jsval) \<Rightarrow> string \<Rightarrow> DiffEntry \<Rightarrow> FileSystem \<Rightarrow> Logger \<Rightarrow> js_error option \<times> FileSystem \<times> Logger" where
  "applyDiff json_parse projectPath (AddEntry p content) fs logger =
     write_entry json_parse projectPath p content fs logger"
| "applyDiff json_parse projectPath (ModifyEntry p content) fs logger =
     write_entry json_parse projectPath p content fs logger"
| "applyDiff json_parse projectPath (DeleteEntry p) fs logger =
     (case unlink fs (path_join [projectPath, p]) of
        Inl err \<Rightarrow> (None, fs, logger)
      | Inr fs' \<Rightarrow> (None, fs', logger))"

fun applyDiffs :: "(string \<Rightarrow> js_error + jsval) \<Rightarrow> string \<Rightarrow> DiffEntry list \<Rightarrow> FileSystem \<Rightarrow> Logger \<Rightarrow> js_error option \<times> FileSystem \<times> Logger" where
  "applyDiffs json_parse projectPath [] fs logger = (None, fs, logger)"
| "applyDiffs json_parse projectPath (diff # diffs) fs logger =
     (case applyDiff json_parse projectPath diff fs logger of
        (Some err, fs', logger') \<Rightarrow> (Some err, fs', logger')
      | (None, fs', logger') \<Rightarrow> applyDiffs json_parse projectPath diffs fs' logger')"

section \<open>The update\<close>

text \<open>
  What the collaborators of one run of \<^verbatim>\<open>updateProject\<close> answer: the head revision
  of the template (\<^verbatim>\<open>git ls-remote\<close>), the temporary directory (named after the
  clock), the effect of \<^verbatim>\<open>git clone\<close> into it, and the change entries read with
  \<^verbatim>\<open>git diff\<close> and \<^verbatim>\<open>git show\<close>. Each subprocess may fail.
\<close>

record Collaborators =
  head_revision :: "js_error + string"
  temp_dir :: string
  clone :: "FileSystem \<Rightarrow> js_error + FileSystem"
  repo_diffs :: "js_error + DiffEntry list"

datatype outcome = Returned | Exited nat | Threw js_error

text \<open>The conversion to a string inside a template literal.\<close>

fun to_string :: "jsval \<Rightarrow> string" where
  "to_string JUndefined = ''undefined''"
| "to_string JNull = ''null''"
| "to_string (JBool b) = (if b then ''true'' else ''false'')"
| "to_string (JNum n) = number_to_string n"
| "to_string (JStr s) = s"
| "to_string (JArr xs) =
     join '','' (map (\<lambda>x. if x = JUndefined \<or> x = JNull then [] else to_string x) xs)"
| "to_string (JObj ps) = ''[object Object]''"
| "to_string (JFun f) = ''function '' @ f @ ''() { [native code] }''"

fun nullish :: "jsval \<Rightarrow> bool" where
  "nullish JUndefined = True"
| "nullish JNull = True"
| "nullish v = False"

fun falsy :: "jsval \<Rightarrow> bool" where
  "falsy JUndefined = True"
| "falsy JNull = True"
| "falsy (JBool b) = (\<not> b)"
| "falsy (JNum n) = (n = 0)"
| "falsy (JStr s) = (s = [])"
| "falsy v = False"

text \<open>
  \<^verbatim>\<open>GetSubstitution\<close> of ECMA-262 for a match without capture groups, as
  \<^verbatim>\<open>String.prototype.replace\<close> applies it to a replacement string: \<^verbatim>\<open>$$\<close> stands for a
  dollar sign, \<^verbatim>\<open>$&\<close> for the matched text, a dollar sign with a grave accent for
  the text before the match, a dollar sign with an apostrophe for the text after
  it, and every other character for itself.
\<close>

fun get_substitution :: "string \<Rightarrow> string \<Rightarrow> string \<Rightarrow> string \<Rightarrow> string" where
  "get_substitution matched preceding following (c # d # cs) =
     (if c = CHR 0x24 \<and> d = CHR 0x24 then CHR 0x24 # get_substitution matched preceding following cs
      else if c = CHR 0x24 \<and> d = CHR ''&'' then matched @ get_substitution matched preceding following cs
      else if c = CHR 0x24 \<and> d = CHR 0x60 then preceding @ get_substitution matched preceding following cs
      else if c = CHR 0x24 \<and> d = CHR 0x27 then following @ get_substitution matched preceding following cs
      else c # get_substitution matched preceding following (d # cs))"
| "get_substitution matched preceding following cs = cs"

text \<open>
  \<^verbatim>\<open>s.replace(search, replacement)\<close> with two strings: the first occurrence is
  replaced; \<open>preceding\<close> is the text already passed.
\<close>

fun replace_from :: "string \<Rightarrow> string \<Rightarrow> string \<Rightarrow> string \<Rightarrow> string" where
  "replace_from preceding [] search replacement =
     (if search = [] then get_substitution [] preceding [] replacement else [])"
| "replace_from preceding (c # cs) search replacement =
     (if starts_with (c # cs) search then
        get_substitution search preceding (drop (length search) (c # cs)) replacement
        @ drop (length search) (c # cs)
      else c # replace_from (preceding @ [c]) cs search replacement)"

definition replace_first :: "string \<Rightarrow> string \<Rightarrow> string \<Rightarrow> string" where
  "replace_first s search replacement = replace_from [] s search replacement"

text \<open>
  \<^verbatim>\<open>normalizeWorkspacePath\<close>, whose regular expression \<^verbatim>\<open>/^\.\//\<close> removes a leading
  \<^verbatim>\<open>./\<close>.
\<close>

definition normalizeWorkspacePath :: "string \<Rightarrow> string \<Rightarrow> string" where
  "normalizeWorkspacePath basePath inputPath =
     (let normalizedPath = (if starts_with inputPath ''./'' then drop 2 inputPath else inputPath)
      in path_join [basePath, normalizedPath])"

text \<open>
  \<^verbatim>\<open>(pkgJson.whare?.ignoredWorkspaces || []).map(...)\<close>: a falsy value gives no
  paths; a value that is not an array, or an element that is not a string, has no
  method to call and the call throws.
\<close>

fun ignored_paths :: "string \<Rightarrow> jsval list \<Rightarrow> js_error + string list" where
  "ignored_paths projectPath [] = Inr []"
| "ignored_paths projectPath (JStr w # ws) =
     (case ignored_paths projectPath ws of
        Inl err \<Rightarrow> Inl err
      | Inr ps \<Rightarrow> Inr (normalizeWorkspacePath projectPath w # ps))"
| "ignored_paths projectPath (v # ws) = Inl (TypeError ''workspace.replace is not a function'')"

definition ignored_workspaces :: "string \<Rightarrow> jsval \<Rightarrow> js_error + string list" where
  "ignored_workspaces projectPath v =
     (if falsy v then Inr []
      else case v of
             JArr xs \<Rightarrow> ignored_paths projectPath xs
           | _ \<Rightarrow> Inl (TypeError ''map is not a function''))"

text \<open>
  The last replacement of \<^verbatim>\<open>updateProject\<close>, with the regular expression
  \<^verbatim>\<open>/"whareVersionPlaceholderDONOTUSE":\s*"<[^>]+>"/\<close>: the first place where the
  quoted key and a colon are followed by white space, by \<^verbatim>\<open>"<\<close>, by one or more
  characters other than \<^verbatim>\<open>>\<close>, and by \<^verbatim>\<open>>"\<close>.
\<close>

definition placeholder_match :: "string \<Rightarrow> nat option" where
  "placeholder_match s =
     (let key = dq # ''whareVersionPlaceholderDONOTUSE'' @ [dq] @ '':''
      in if \<not> starts_with s key then None
         else let a = drop (length key) s; b = dropWhile is_ws a
              in if \<not> starts_with b (dq # ''<'') then None
                 else let c = drop 2 b; run = takeWhile (\<lambda>x. x \<noteq> CHR ''>'') c; d = drop (length run) c
                      in if run \<noteq> [] \<and> starts_with d (''>'' @ [dq])
                         then Some (length s - length d + 2)
                         else None)"

fun replace_placeholder_from :: "string \<Rightarrow> string \<Rightarrow> string \<Rightarrow> string" where
  "replace_placeholder_from preceding [] replacement = []"
| "replace_placeholder_from preceding (c # cs) replacement =
     (case placeholder_match (c # cs) of
        Some n \<Rightarrow> get_substitution (take n (c # cs)) preceding (drop n (c # cs)) replacement
                  @ drop n (c # cs)
      | None \<Rightarrow> c # replace_placeholder_from (preceding @ [c]) cs replacement)"

definition replace_placeholder :: "string \<Rightarrow> string \<Rightarrow> string" where
  "replace_placeholder s replacement = replace_placeholder_from [] s replacement"

text \<open>
  The changes of one template workspace applied to a project workspace: the
  entries under the template path, each with that path replaced by the path of the
  project workspace.
\<close>

definition workspace_diffs :: "DiffEntry list \<Rightarrow> string \<Rightarrow> DiffEntry list" where
  "workspace_diffs filteredDiffs templateRelativePath =
     filter (\<lambda>d. starts_with (diff_path d) (templateRelativePath @ ''/'')) filteredDiffs"

definition retarget :: "string \<Rightarrow> string \<Rightarrow> DiffEntry \<Rightarrow> DiffEntry" where
  "retarget templateRelativePath workspacePath diff =
     with_path diff (replace_first (diff_path diff) templateRelativePath workspacePath)"

text \<open>One round of the loop over the project workspaces.\<close>

definition process_workspace :: "(string \<Rightarrow> js_error + jsval) \<Rightarrow> string \<Rightarrow> string \<Rightarrow> DiffEntry list \<Rightarrow> string option \<times> string option \<Rightarrow> string \<Rightarrow> FileSystem \<Rightarrow> Logger \<Rightarrow> js_error option \<times> FileSystem \<times> Logger" where
  "process_workspace json_parse projectPath tempDir filteredDiffs templates workspacePath fs logger =
     (case getWorkspaceInfo json_parse fs workspacePath of
        None \<Rightarrow>
          (None, fs, log logger (''Warning: Could not read package.json for workspace: '' @ workspacePath))
      | Some workspaceInfo \<Rightarrow>
         (case findMatchingTemplateWorkspace json_parse fs workspaceInfo tempDir of
            Some templateWorkspacePath \<Rightarrow>
              (let templateRelativePath = path_relative tempDir templateWorkspacePath;
                   workspaceDiffs = workspace_diffs filteredDiffs templateRelativePath
               in applyDiffs json_parse projectPath
                    (map (retarget templateRelativePath workspacePath) workspaceDiffs) fs logger)
          | None \<Rightarrow>
              (let isLibrary = starts_with workspacePath (path_join [projectPath, ''packages''])
               in case (if isLibrary then fst templates else snd templates) of
                    Some templatePath \<Rightarrow>
                      (let templateRelativePath = path_relative tempDir templatePath;
                           workspaceDiffs = workspace_diffs filteredDiffs templateRelativePath
                       in if workspaceDiffs \<noteq> [] then
                            applyDiffs json_parse projectPath
                              (map (retarget templateRelativePath workspacePath) workspaceDiffs) fs
                              (log logger (''Applying '' @ (if isLibrary then ''template-library'' else ''template-app'')
                                           @ '' changes to '' @ to_string (packageName workspaceInfo)))
                          else (None, fs, logger))
                  | None \<Rightarrow>
                      (None, fs, log logger
                             (''Note: No matching template workspace found for ''
                              @ to_string (packageName workspaceInfo) @ '' at '' @ workspacePath
                              @ '' and no template '' @ (if isLibrary then ''library'' else ''app'')
                              @ '' available'')))))"

fun process_workspaces :: "(string \<Rightarrow> js_error + jsval) \<Rightarrow> string \<Rightarrow> string \<Rightarrow> DiffEntry list \<Rightarrow> string option \<times> string option \<Rightarrow> string list \<Rightarrow> FileSystem \<Rightarrow> Logger \<Rightarrow> js_error option \<times> FileSystem \<times> Logger" where
  "process_workspaces json_parse projectPath tempDir filteredDiffs templates [] fs logger = (None, fs, logger)"
| "process_workspaces json_parse projectPath tempDir filteredDiffs templates (w # ws) fs logger =
     (case process_workspace json_parse projectPath tempDir filteredDiffs templates w fs logger of
        (Some err, fs', logger') \<Rightarrow> (Some err, fs', logger')
      | (None, fs', logger') \<Rightarrow>
          process_workspaces json_parse projectPath tempDir filteredDiffs templates ws fs' logger')"

definition DEFAULT_IGNORED_FILES :: "string list" where
  "DEFAULT_IGNORED_FILES = [''bun.lockb'', ''bun.lock'']"

text \<open>
  The manifest that \<^verbatim>\<open>updateProject\<close> writes before it asks for the changes: the
  parsed manifest without \<^verbatim>\<open>whare.version\<close> and with the placeholder.
\<close>

definition placeholder_manifest :: "jsval \<Rightarrow> jsval \<Rightarrow> jsval \<Rightarrow> jsval" where
  "placeholder_manifest pkgJson whare previousWhareVersion =
     JObj (define_own (spread pkgJson) ''whare''
            (JObj (define_own (spread whare) ''whareVersionPlaceholderDONOTUSE''
                     (JStr (''<'' @ to_string previousWhareVersion @ ''>'')))))"

text \<open>
  \<^verbatim>\<open>delete pkgJson.whare?.version\<close> changes the object \<^verbatim>\<open>pkgJson.whare\<close> where it
  is: the result is the manifest and its \<^verbatim>\<open>whare\<close> value after the deletion.
\<close>

fun delete_whare_version :: "jsval \<Rightarrow> jsval \<Rightarrow> jsval \<times> jsval" where
  "delete_whare_version (JObj ps) (JObj w) =
     (JObj (replace_own ps ''whare'' (JObj (js_delete w ''version''))), JObj (js_delete w ''version''))"
| "delete_whare_version pkgJson whare = (pkgJson, whare)"

text \<open>
  The tail of \<^verbatim>\<open>updateProject\<close> from the test \<^verbatim>\<open>diffs.length === 0\<close> on.
\<close>

definition update_with_diffs :: "(string \<Rightarrow> js_error + jsval) \<Rightarrow> string \<Rightarrow> string \<Rightarrow> string \<Rightarrow> string \<Rightarrow> string list \<Rightarrow> bool \<Rightarrow> DiffEntry list \<Rightarrow> FileSystem \<Rightarrow> Logger \<Rightarrow> outcome \<times> FileSystem \<times> Logger" where
  "update_with_diffs json_parse projectPath fromVersion currentHash tempDir ignoredWorkspaces isDry diffs fs logger =
     (if diffs = [] then (Returned, fs, log logger ''No changes found in template'')
      else
        let filteredDiffs = filter (\<lambda>d. path_basename (diff_path d) \<notin> set DEFAULT_IGNORED_FILES) diffs;
            projectWorkspaces =
              filter (\<lambda>w. w \<notin> set ignoredWorkspaces)
                (findWorkspaces fs (path_join [projectPath, ''packages''])
                 @ findWorkspaces fs (path_join [projectPath, ''apps'']))
        in if isDry then
             (let l1 = log logger (''Would update project from version '' @ fromVersion @ '' to '' @ currentHash);
                  l2 = log l1 (''Found '' @ to_dec (length filteredDiffs) @ '' changes in template'');
                  l3 = log l2 (''Found '' @ to_dec (length projectWorkspaces)
                               @ '' workspaces to potentially update'');
                  l4 = (if ignoredWorkspaces \<noteq> [] then
                          log l3 (''Ignoring workspaces: ''
                                  @ join '', '' (map (path_relative projectPath)
                                                   (rev (remdups (rev ignoredWorkspaces)))))
                        else l3)
              in (Returned, fs, log l4 (''Ignored files: '' @ join '', '' DEFAULT_IGNORED_FILES)))
           else
             let rootDiffs = filter (\<lambda>d. \<not> starts_with (diff_path d) ''packages/''
                                          \<and> \<not> starts_with (diff_path d) ''apps/'') filteredDiffs
             in case applyDiffs json_parse projectPath rootDiffs fs logger of
                  (Some err, fs1, logger1) \<Rightarrow> (Threw err, fs1, logger1)
                | (None, fs1, logger1) \<Rightarrow>
                   (case process_workspaces json_parse projectPath tempDir filteredDiffs
                           (getTemplateWorkspaces fs1 tempDir) projectWorkspaces fs1 logger1 of
                      (Some err, fs2, logger2) \<Rightarrow> (Threw err, fs2, logger2)
                    | (None, fs2, logger2) \<Rightarrow>
                       (let pkgJsonPath = path_join [projectPath, ''package.json'']
                        in case readFile fs2 pkgJsonPath of
                             Inl err \<Rightarrow> (Threw err, fs2, logger2)
                           | Inr fileContents \<Rightarrow>
                              (let updatedContents =
                                     replace_placeholder fileContents
                                       (dq # ''version'' @ [dq] @ '': '' @ [dq] @ currentHash @ [dq]);
                                   fs3 = writeFile fs2 pkgJsonPath updatedContents;
                                   l1 = log logger2 (lf # ''Update completed! Review the changes:'')
                               in (Returned, fs3,
                                   log l1 (''1. Check '' @ [CHR 0x27] @ ''git status'' @ [CHR 0x27]
                                           @ '' to see modified files''))))))"

text \<open>
  \<^verbatim>\<open>updateProject\<close>. A failing \<^verbatim>\<open>git ls-remote\<close>, \<^verbatim>\<open>git diff\<close> or \<^verbatim>\<open>git show\<close>
  ends the process with status 1; a failing clone is logged only; an error outside
  a \<^verbatim>\<open>try\<close> block is thrown to the caller.
\<close>

definition updateProject :: "(string \<Rightarrow> js_error + jsval) \<Rightarrow> Collaborators \<Rightarrow> string \<Rightarrow> string \<Rightarrow> Logger \<Rightarrow> bool \<Rightarrow> FileSystem \<Rightarrow> outcome \<times> FileSystem \<times> Logger" where
  "updateProject json_parse env projectPath fromVersion logger isDry fs =
     (case head_revision env of
        Inl err \<Rightarrow>
          (Exited 1, fs, log logger (''Error: Failed to get current template hash: '' @ error_text err))
      | Inr currentHash \<Rightarrow>
         (let pkgJsonPath = path_join [projectPath, ''package.json'']
          in case readFile fs pkgJsonPath of
               Inl err \<Rightarrow> (Threw err, fs, logger)
             | Inr pkgJsonContents \<Rightarrow>
                (case json_parse pkgJsonContents of
                   Inl err \<Rightarrow> (Threw err, fs, logger)
                 | Inr pkgJson0 \<Rightarrow>
                    (case get_field pkgJson0 ''whare'' of
                       Inl err \<Rightarrow> (Threw err, fs, logger)
                     | Inr whare0 \<Rightarrow>
                        (let previousWhareVersion =
                               (if nullish whare0 then JUndefined
                                else case get_field whare0 ''version'' of Inl err \<Rightarrow> JUndefined | Inr v \<Rightarrow> v);
                             pkgJson = fst (delete_whare_version pkgJson0 whare0);
                             whare = snd (delete_whare_version pkgJson0 whare0)
                         in case json_stringify_indent2 (placeholder_manifest pkgJson whare previousWhareVersion) of
                              None \<Rightarrow> (Threw (TypeError ''data must be a string''), fs, logger)
                            | Some text \<Rightarrow>
                               (let fs1 = writeFile fs pkgJsonPath text
                                in case ignored_workspaces projectPath
                                          (if nullish whare then JUndefined
                                           else case get_field whare ''ignoredWorkspaces'' of
                                                  Inl err \<Rightarrow> JUndefined | Inr v \<Rightarrow> v) of
                                     Inl err \<Rightarrow> (Threw err, fs1, logger)
                                   | Inr ignoredWorkspaces \<Rightarrow>
                                      (let tempDir = temp_dir env;
                                           fs2 = mkdir_recursive fs1 tempDir
                                       in case (case clone env fs2 of
                                                  Inl err \<Rightarrow> (fs2, log logger (''Error: Failed to clone template: '' @ error_text err))
                                                | Inr fs3 \<Rightarrow> (fs3, logger)) of
                                            (fs3, logger1) \<Rightarrow>
                                              (case repo_diffs env of
                                                 Inl err \<Rightarrow>
                                                   (Exited 1, fs3,
                                                    log logger1 (''Error: Failed to get repo diffs: '' @ error_text err))
                                               | Inr diffs \<Rightarrow>
                                                   update_with_diffs json_parse projectPath fromVersion currentHash
                                                     tempDir ignoredWorkspaces isDry diffs fs3 logger1))))))))"

section \<open>Descriptions of the merged mappings\<close>

text \<open>
  The properties \<^verbatim>\<open>JSON.stringify\<close> writes for an object: those whose value has a
  serialisation.
\<close>

fun serializable :: "jsval \<Rightarrow> bool" where
  "serializable JUndefined = False"
| "serializable (JFun f) = False"
| "serializable v = True"

definition written :: "props \<Rightarrow> props" where
  "written ps = filter (\<lambda>p. serializable (snd p)) ps"

text \<open>
  The names reserved for the conflict sentinels: every key that starts with one of
  the five prefixes of \<^verbatim>\<open>createConflictMarkers\<close>.
\<close>

definition reserved_key :: "string \<Rightarrow> bool" where
  "reserved_key k =
     (starts_with k ''conf-start::'' \<or> starts_with k ''conf-mid::'' \<or> starts_with k ''conf-end::''
      \<or> starts_with k ''tmpl::'' \<or> starts_with k ''curr::'')"

text \<open>
  The five sentinel properties of one conflict, in the order in which \<^verbatim>\<open>merge\<close>
  assigns them.
\<close>

definition conflict_block :: "nat \<Rightarrow> string \<Rightarrow> jsval \<Rightarrow> jsval \<Rightarrow> props" where
  "conflict_block counter subKey originalValue subValue =
     (let markers = createConflictMarkers counter subKey
      in [(cm_start markers, JStr []), (cm_current markers, originalValue),
          (cm_mid markers, JStr []), (cm_template markers, subValue),
          (cm_end markers, JStr [])])"

text \<open>
  A closed description of what the inner loop of \<^verbatim>\<open>merge\<close> does to a current
  object \<open>m\<close> for incoming entries \<open>es\<close>, to be compared with the loop: the keys of
  \<open>m\<close> whose values diverge, and the properties added behind those that \<open>m\<close>
  keeps (a new key with its incoming value, a conflict block for a diverged key,
  nothing for an equal one).
\<close>

fun diverged :: "props \<Rightarrow> props \<Rightarrow> string list" where
  "diverged m [] = []"
| "diverged m ((k, v) # es) =
     (case map_of m k of
        None \<Rightarrow> diverged m es
      | Some old \<Rightarrow> if hasValueChanged old v then k # diverged m es else diverged m es)"

fun appended :: "props \<Rightarrow> nat \<Rightarrow> props \<Rightarrow> props" where
  "appended m n [] = []"
| "appended m n ((k, v) # es) =
     (case map_of m k of
        None \<Rightarrow> (k, v) # appended m n es
      | Some old \<Rightarrow> if hasValueChanged old v then conflict_block n k old v @ appended m (Suc n) es
                    else appended m n es)"

definition merged_description :: "props \<Rightarrow> nat \<Rightarrow> props \<Rightarrow> props" where
  "merged_description m n es =
     filter (\<lambda>p. fst p \<notin> set (diverged m es)) m @ appended m n es"

text \<open>
  The incoming entries \<open>es\<close> of a merge field are plain for the current object \<open>m\<close>
  when no key is repeated or reserved, and every key that \<open>m\<close> lacks is neither
  an array index nor a name inherited from \<^verbatim>\<open>Object.prototype\<close>.
\<close>

definition plain_entries :: "props \<Rightarrow> props \<Rightarrow> bool" where
  "plain_entries m es =
     (distinct (map fst es) \<and>
      list_all (\<lambda>p. \<not> reserved_key (fst p) \<and>
                    (map_of m (fst p) = None \<longrightarrow>
                       array_index (fst p) = None \<and> object_prototype_get (fst p) = None)) es)"

definition no_reserved_keys :: "props \<Rightarrow> bool" where
  "no_reserved_keys m = list_all (\<lambda>p. \<not> reserved_key (fst p)) m"

text \<open>
  The sentinel names a merge may still create when its counter is \<open>n\<close> and the keys
  \<open>K\<close> are still to be processed.
\<close>

definition fresh_names :: "nat \<Rightarrow> string set \<Rightarrow> string set" where
  "fresh_names n K =
     (\<Union>j \<in> {n..}. {''conf-start::'' @ pad_start2 (to_dec j), ''conf-mid::'' @ pad_start2 (to_dec j),
                      ''conf-end::'' @ pad_start2 (to_dec j)})
     \<union> (\<Union>k \<in> K. {''curr::'' @ k, ''tmpl::'' @ k})"

text \<open>
  What one round of the outer loop assigns to \<^verbatim>\<open>result[key]\<close> when the current
  document is the object \<open>c\<close> and the counter is \<open>n\<close>, and the counter after the
  round.
\<close>

definition assigned_value :: "props \<Rightarrow> nat \<Rightarrow> string \<Rightarrow> jsval \<Rightarrow> jsval" where
  "assigned_value c n key v =
     (if key \<in> PACKAGE_JSON_PROTECTED_FIELDS then js_get c key
      else if key \<in> PACKAGE_JSON_MERGE_FIELDS \<and> is_object v then
        JObj (fst (foldl merge_sub_entry (spread (js_get c key), n) (spread v)))
      else v)"

definition next_counter :: "props \<Rightarrow> nat \<Rightarrow> string \<Rightarrow> jsval \<Rightarrow> nat" where
  "next_counter c n key v =
     (if key \<notin> PACKAGE_JSON_PROTECTED_FIELDS \<and> key \<in> PACKAGE_JSON_MERGE_FIELDS \<and> is_object v then
        snd (foldl merge_sub_entry (spread (js_get c key), n) (spread v))
      else n)"

text \<open>
  The manifest name of the workspace at a path, when \<^verbatim>\<open>getWorkspaceInfo\<close> finds one.
\<close>

definition template_name :: "(string \<Rightarrow> js_error + jsval) \<Rightarrow> FileSystem \<Rightarrow> string \<Rightarrow> jsval option" where
  "template_name json_parse fs p = map_option packageName (getWorkspaceInfo json_parse fs p)"

text \<open>
  A stand-in for \<^verbatim>\<open>JSON.parse\<close> in examples: it parses the one given text to the
  given value and rejects every other text.
\<close>

definition parse_only :: "string \<Rightarrow> jsval \<Rightarrow> string \<Rightarrow> js_error + jsval" where
  "parse_only text v s = (if s = text then Inr v else Inl (SyntaxError ''Unexpected token''))"

text \<open>A stand-in for \<^verbatim>\<open>git clone\<close> in examples: it adds the given files.\<close>

definition clone_files :: "(string \<times> string) list \<Rightarrow> FileSystem \<Rightarrow> js_error + FileSystem" where
  "clone_files fs_new fs = Inr (fs\<lparr>files := files fs ++ map_of fs_new\<rparr>)"

text \<open>
  A stand-in for \<^verbatim>\<open>JSON.parse\<close> in examples with several documents: it parses each
  given value from the text \<^verbatim>\<open>JSON.stringify(value, null, 2)\<close> writes for it and
  rejects every other text.
\<close>

definition parse_table :: "(string \<times> jsval) list \<Rightarrow> string \<Rightarrow> js_error + jsval" where
  "parse_table table s =
     (case map_of table s of Some v \<Rightarrow> Inr v | None \<Rightarrow> Inl (SyntaxError ''Unexpected token''))"

definition manifest_text :: "jsval \<Rightarrow> string" where
  "manifest_text v = (case json_stringify_indent2 v of Some s \<Rightarrow> s | None \<Rightarrow> [])"

definition parse_manifests :: "jsval list \<Rightarrow> string \<Rightarrow> js_error + jsval" where
  "parse_manifests vs = parse_table (map (\<lambda>v. (manifest_text v, v)) vs)"

section \<open>Descriptions of the lines of a document\<close>

text \<open>
  A line that \<^verbatim>\<open>transformToGitConflicts\<close> takes for a delimiter, and a line that it
  may rewrite at all: a delimiter line, or one whose trimmed text starts with a
  quoted \<^verbatim>\<open>tmpl::\<close> or \<^verbatim>\<open>curr::\<close>.
\<close>

definition delimiter_line :: "string \<Rightarrow> bool" where
  "delimiter_line l =
     (str_includes l (dq # ''conf-start::'') \<or> str_includes l (dq # ''conf-mid::'')
      \<or> str_includes l (dq # ''conf-end::''))"

definition sentinel_line :: "string \<Rightarrow> bool" where
  "sentinel_line l =
     (delimiter_line l \<or> starts_with (trim l) (dq # ''tmpl::'')
      \<or> starts_with (trim l) (dq # ''curr::''))"

text \<open>
  In a document written with two spaces of indentation the first line of a
  top-level member starts with two spaces and the double quote of its key; the
  member of key \<open>key\<close> starts with the quoted key and a colon. The top-level
  lines of a text are its lines of that form, in order.
\<close>

definition top_level_line :: "string \<Rightarrow> bool" where
  "top_level_line l = starts_with l (''  '' @ [dq])"

definition member_line :: "string \<Rightarrow> string \<Rightarrow> bool" where
  "member_line key l = starts_with l (''  '' @ quoteJSONString key @ '': '')"

definition top_level_lines :: "string \<Rightarrow> string list" where
  "top_level_lines text = filter top_level_line (split_lines text)"

text \<open>
  The other lines of such a document: a line below the indentation \<open>indent\<close>
  goes on with a space or closes an object or array there; an inner line starts
  with three spaces or has no double quote at the start of its trimmed text.
\<close>

definition inner_line :: "string \<Rightarrow> bool" where
  "inner_line l = (starts_with l ''   '' \<or> \<not> starts_with (trim l) [dq])"

definition deep_line :: "string \<Rightarrow> string \<Rightarrow> bool" where
  "deep_line indent l =
     (starts_with l (indent @ '' '') \<or> starts_with l (indent @ ''}'')
      \<or> starts_with l (indent @ '']''))"

text \<open>
  The members \<^verbatim>\<open>JSON.stringify(value, null, 2)\<close> writes for a top-level object, each
  with the text of its value.
\<close>

definition member_texts :: "props \<Rightarrow> (string \<times> string) list" where
  "member_texts ps =
     concat (map (\<lambda>(k, v). case serializeJSONProperty ''  '' ''  '' v of
                              None \<Rightarrow> [] | Some t \<Rightarrow> [(k, t)]) ps)"

text \<open>
  The text that \<^verbatim>\<open>merge\<close> hands to \<^verbatim>\<open>transformToGitConflicts\<close> for two parsed
  documents: the serialisation of the merged object, sentinels included.
\<close>

definition marked_text :: "jsval \<Rightarrow> jsval \<Rightarrow> string" where
  "marked_text currentJson incomingJson =
     (case merge_json currentJson incomingJson of
        Inl err \<Rightarrow> []
      | Inr result \<Rightarrow> (case json_stringify_indent2 (JObj result) of None \<Rightarrow> [] | Some s \<Rightarrow> s))"

section \<open>Value comparison\<close>

lemmas char_defs = dq_def lf_def cr_def backslash_def

lemma digit_nth: "n < 10 \<Longrightarrow> ''0123456789'' ! n \<in> set ''0123456789''"
  by (rule nth_mem) simp

lemma to_dec_hd: "to_dec n \<noteq> [] \<and> hd (to_dec n) \<in> set ''0123456789''"
proof (induction n rule: to_dec.induct)
  case (1 n)
  show ?case
  proof (cases "n < 10")
    case True
    then show ?thesis
      using digit_nth[of n] by (subst to_dec.simps, subst to_dec.simps) simp
  next
    case False
    then show ?thesis
      using 1 by (subst to_dec.simps, subst to_dec.simps) simp
  qed
qed

lemma number_to_string_hd:
  "number_to_string i \<noteq> [] \<and> hd (number_to_string i) \<in> set ''-0123456789''"
  using to_dec_hd[of "nat i"] to_dec_hd[of "nat (- i)"]
  by (auto simp: number_to_string_def)

lemma serialize_first_char:
  assumes "kind_of v = Some k"
  shows "\<exists>s. serializeJSONProperty [] [] v = Some s \<and> s \<noteq> [] \<and> hd s \<in> first_chars k"
  using assms number_to_string_hd
  by (cases v) (auto simp: first_chars_def quoteJSONString_def Let_def)

lemma first_chars_disjoint: "k \<noteq> k' \<Longrightarrow> first_chars k \<inter> first_chars k' = {}"
  by (cases k; cases k') (auto simp: first_chars_def dq_def)

lemma compatible_kind: "json_compatible v \<Longrightarrow> \<exists>k. kind_of v = Some k"
  by (cases v) auto

lemma kinds_differ_changed:
  assumes cx: "json_compatible x" and cy: "json_compatible y"
    and ne: "kind_of x \<noteq> kind_of y"
  shows "hasValueChanged x y"
proof -
  from cx cy obtain k k' where k: "kind_of x = Some k" "kind_of y = Some k'"
    using compatible_kind by blast
  with ne have kk: "k \<noteq> k'" by simp
  from serialize_first_char[OF k(1)] obtain s where
    s: "serializeJSONProperty [] [] x = Some s" "s \<noteq> []" "hd s \<in> first_chars k" by blast
  from serialize_first_char[OF k(2)] obtain t where
    t: "serializeJSONProperty [] [] y = Some t" "t \<noteq> []" "hd t \<in> first_chars k'" by blast
  from first_chars_disjoint[OF kk] s(3) t(3) have "s \<noteq> t" by auto
  then show ?thesis using s t by (simp add: hasValueChanged_def json_stringify_def)
qed

text \<open>
  Claim C8. For every value \<open>a\<close>, JSON-compatible or not, \<^verbatim>\<open>hasValueChanged(a, a)\<close>
  is false, whatever is nested in \<open>a\<close>. For JSON-compatible \<open>x\<close> and \<open>y\<close> of different
  kinds (null, boolean, number, string, array, object) \<^verbatim>\<open>hasValueChanged(x, y)\<close> is
  true, as it is for the string \<^verbatim>\<open>"123"\<close> against the number 123 and for \<^verbatim>\<open>null\<close>
  against \<^verbatim>\<open>undefined\<close> in either order.
\<close>

theorem hasValueChanged_reflexive_and_kinds:
  "\<not> hasValueChanged a a
   \<and> (json_compatible x \<and> json_compatible y \<and> kind_of x \<noteq> kind_of y \<longrightarrow> hasValueChanged x y)
   \<and> hasValueChanged (JStr ''123'') (JNum 123)
   \<and> hasValueChanged JNull JUndefined
   \<and> hasValueChanged JUndefined JNull"
proof (intro conjI impI)
  show "\<not> hasValueChanged a a" by (simp add: hasValueChanged_def)
  show "hasValueChanged (JStr ''123'') (JNum 123)"
    by (rule kinds_differ_changed) simp_all
  show "hasValueChanged JNull JUndefined"
    by (simp add: hasValueChanged_def json_stringify_def)
  show "hasValueChanged JUndefined JNull"
    by (simp add: hasValueChanged_def json_stringify_def)
next
  assume "json_compatible x \<and> json_compatible y \<and> kind_of x \<noteq> kind_of y"
  then show "hasValueChanged x y" using kinds_differ_changed by blast
qed

theorem hasValueChanged_reflexive_and_kinds_witness:
  "json_compatible (JObj [(''a'', JArr [JNum 1, JStr ''b''])])
   \<and> json_compatible (JArr [])
   \<and> kind_of (JObj [(''a'', JArr [JNum 1, JStr ''b''])]) \<noteq> kind_of (JArr [])
   \<and> \<not> hasValueChanged (JObj [(''a'', JArr [JNum 1, JStr ''b''])]) (JObj [(''a'', JArr [JNum 1, JStr ''b''])])
   \<and> hasValueChanged (JObj [(''a'', JArr [JNum 1, JStr ''b''])]) (JArr [])"
  using hasValueChanged_reflexive_and_kinds
    [of "JObj [(''a'', JArr [JNum 1, JStr ''b''])]" "JObj [(''a'', JArr [JNum 1, JStr ''b''])]" "JArr []"]
  by simp

section \<open>Properties of the object operations\<close>

lemma has_own_iff: "has_own ps k \<longleftrightarrow> k \<in> fst ` set ps"
  by (simp add: has_own_def map_of_eq_None_iff)

lemma map_of_replace_own:
  "map_of (replace_own ps k v) k' = (if k' = k \<and> has_own ps k then Some v else map_of ps k')"
  by (induction ps) (auto simp: has_own_def)

lemma keys_replace_own: "map fst (replace_own ps k v) = map fst ps"
  by (induction ps) auto

lemma set_replace_own: "set (replace_own ps k v) \<subseteq> insert (k, v) (set ps)"
  by (induction ps) (auto split: if_splits)

lemma map_of_insert_index:
  "\<not> has_own ps k \<Longrightarrow> map_of (insert_index ps k n v) = (map_of ps)(k \<mapsto> v)"
proof (induction ps)
  case Nil
  then show ?case by simp
next
  case (Cons p ps)
  obtain k' v' where p: "p = (k', v')" by (cases p)
  from Cons.prems p have ne: "k' \<noteq> k" and no: "\<not> has_own ps k"
    by (auto simp: has_own_def split: if_splits)
  show ?case
    using Cons.IH[OF no] ne
    by (auto simp: p fun_upd_twist split: option.splits)
qed

lemma set_insert_index: "set (insert_index ps k n v) = insert (k, v) (set ps)"
  by (induction ps) (auto split: option.splits if_splits)

lemma distinct_insert_index:
  "k \<notin> fst ` set ps \<Longrightarrow> distinct (map fst ps) \<Longrightarrow> distinct (map fst (insert_index ps k n v))"
proof (induction ps)
  case Nil
  then show ?case by simp
next
  case (Cons p ps)
  then show ?case
    by (cases p) (auto simp: set_insert_index split: option.splits if_splits)
qed

lemma map_of_snoc:
  "map_of ps k = None \<Longrightarrow> map_of (ps @ [(k, v)]) = (map_of ps)(k \<mapsto> v)"
  by (rule ext) (auto simp: map_add_def split: option.splits)

lemma map_of_define_own: "map_of (define_own ps k v) = (map_of ps)(k \<mapsto> v)"
proof (cases "has_own ps k")
  case True
  then show ?thesis
    by (auto simp: define_own_def map_of_replace_own)
next
  case False
  then show ?thesis
    using map_of_snoc[of ps k v]
    by (auto simp: define_own_def map_of_insert_index has_own_def split: option.splits)
qed

lemma map_of_js_set:
  "map_of (js_set ps k v)
     = (if \<not> has_own ps k \<and> k = ''__proto__'' then map_of ps else (map_of ps)(k \<mapsto> v))"
  by (auto simp: js_set_def map_of_define_own)

lemma set_define_own: "set (define_own ps k v) \<subseteq> insert (k, v) (set ps)"
  using set_replace_own[of ps k v]
  by (auto simp: define_own_def set_insert_index split: option.splits)

lemma set_js_set: "set (js_set ps k v) \<subseteq> insert (k, v) (set ps)"
  using set_define_own[of ps k v] by (auto simp: js_set_def)

lemma distinct_define_own:
  "distinct (map fst ps) \<Longrightarrow> distinct (map fst (define_own ps k v))"
  by (auto simp: define_own_def keys_replace_own has_own_iff distinct_insert_index
           split: option.splits)

lemma distinct_js_set: "distinct (map fst ps) \<Longrightarrow> distinct (map fst (js_set ps k v))"
  by (simp add: js_set_def distinct_define_own)

lemma js_set_new:
  "\<not> has_own ps k \<Longrightarrow> array_index k = None \<Longrightarrow> k \<noteq> ''__proto__'' \<Longrightarrow> js_set ps k v = ps @ [(k, v)]"
  by (simp add: js_set_def define_own_def)

lemma js_set_own: "has_own ps k \<Longrightarrow> js_set ps k v = replace_own ps k v"
  by (simp add: js_set_def define_own_def)

lemma map_of_js_delete: "map_of (js_delete ps k) k' = (if k' = k then None else map_of ps k')"
  by (induction ps) (auto simp: js_delete_def)

lemma has_own_js_delete: "has_own (js_delete ps k) k' \<longleftrightarrow> k' \<noteq> k \<and> has_own ps k'"
  by (simp add: has_own_def map_of_js_delete)

lemma js_delete_append: "js_delete (ps @ qs) k = js_delete ps k @ js_delete qs k"
  by (simp add: js_delete_def)

section \<open>Sentinel names\<close>

lemma starts_with_append: "starts_with (p @ s) p"
  by (induction p) auto

lemma starts_with_iff: "starts_with s p \<longleftrightarrow> (\<exists>t. s = p @ t)"
proof (induction s p rule: starts_with.induct)
  case (1 s)
  then show ?case by simp
next
  case (2 p ps)
  then show ?case by simp
next
  case (3 c cs p ps)
  then show ?case by auto
qed

lemma marker_names_reserved:
  "reserved_key (''conf-start::'' @ x)" "reserved_key (''conf-mid::'' @ x)"
  "reserved_key (''conf-end::'' @ x)" "reserved_key (''tmpl::'' @ x)" "reserved_key (''curr::'' @ x)"
  by (simp_all add: reserved_key_def)

lemma reserved_not_index: "reserved_key k \<Longrightarrow> array_index k = None"
  by (auto simp: reserved_key_def starts_with_iff array_index_def)

lemma reserved_not_proto: "reserved_key k \<Longrightarrow> k \<noteq> ''__proto__''"
  by (auto simp: reserved_key_def)

lemma digit_inj: "a < 10 \<Longrightarrow> b < 10 \<Longrightarrow> ''0123456789'' ! a = ''0123456789'' ! b \<Longrightarrow> a = b"
  by (rule iffD1[OF nth_eq_iff_index_eq]) simp_all

lemma to_dec_length: "length (to_dec n) = 1 \<longleftrightarrow> n < 10"
proof (induction n rule: to_dec.induct)
  case (1 n)
  show ?case
  proof (cases "n < 10")
    case True
    then show ?thesis by (subst to_dec.simps) simp
  next
    case False
    have "to_dec (n div 10) \<noteq> []" using to_dec_hd by blast
    then show ?thesis using False by (subst to_dec.simps) simp
  qed
qed

lemma to_dec_inj: "to_dec a = to_dec b \<Longrightarrow> a = b"
proof (induction a arbitrary: b rule: to_dec.induct)
  case (1 n)
  show ?case
  proof (cases "n < 10")
    case True
    with "1.prems" have "length (to_dec b) = 1" using to_dec_length[of n] by simp
    then have b: "b < 10" using to_dec_length[of b] by simp
    with True "1.prems" show ?thesis using digit_inj[of n b] by (simp add: to_dec.simps[of n] to_dec.simps[of b])
  next
    case False
    with "1.prems" have "length (to_dec b) \<noteq> 1" using to_dec_length[of n] by simp
    then have b: "\<not> b < 10" using to_dec_length[of b] by simp
    from "1.prems" False b
    have eq: "to_dec (n div 10) @ [''0123456789'' ! (n mod 10)]
              = to_dec (b div 10) @ [''0123456789'' ! (b mod 10)]"
      by (simp add: to_dec.simps[of n] to_dec.simps[of b])
    then have "to_dec (n div 10) = to_dec (b div 10)"
      and d: "''0123456789'' ! (n mod 10) = ''0123456789'' ! (b mod 10)" by simp_all
    then have "n div 10 = b div 10" using "1.IH"[OF False] by simp
    moreover have "n mod 10 = b mod 10" using digit_inj[OF _ _ d] by simp
    ultimately show ?thesis by (metis div_mult_mod_eq)
  qed
qed

lemma to_dec_hd_nonzero: "\<not> n < 10 \<Longrightarrow> hd (to_dec n) \<noteq> CHR ''0''"
proof (induction n rule: to_dec.induct)
  case (1 n)
  have ne: "to_dec (n div 10) \<noteq> []" using to_dec_hd by blast
  show ?case
  proof (cases "n div 10 < 10")
    case True
    with "1.prems" have pos: "0 < n div 10" by simp
    have "''0123456789'' ! (n div 10) \<noteq> ''0123456789'' ! 0"
      using digit_inj[OF True, of 0] pos by auto
    then have "hd (to_dec (n div 10)) \<noteq> CHR ''0''"
      using True by (subst to_dec.simps) simp
    then show ?thesis using "1.prems" ne by (subst to_dec.simps) simp
  next
    case False
    then show ?thesis using "1.IH" "1.prems" ne by (subst to_dec.simps) simp
  qed
qed

lemma pad_start2_inj: "pad_start2 (to_dec a) = pad_start2 (to_dec b) \<Longrightarrow> a = b"
proof -
  assume eq: "pad_start2 (to_dec a) = pad_start2 (to_dec b)"
  have len: "\<And>n. \<not> n < 10 \<Longrightarrow> 2 \<le> length (to_dec n)"
  proof -
    fix n :: nat assume "\<not> n < 10"
    then have "length (to_dec n) \<noteq> 1" using to_dec_length[of n] by simp
    moreover have "to_dec n \<noteq> []" using to_dec_hd by blast
    ultimately show "2 \<le> length (to_dec n)"
      by (cases "length (to_dec n)") auto
  qed
  have small: "\<And>n. n < 10 \<Longrightarrow> pad_start2 (to_dec n) = CHR ''0'' # to_dec n"
  proof -
    fix n :: nat assume "n < 10"
    then have "length (to_dec n) = 1" using to_dec_length[of n] by simp
    then show "pad_start2 (to_dec n) = CHR ''0'' # to_dec n"
      by (simp add: pad_start2_def numeral_2_eq_2)
  qed
  have big: "\<And>n. \<not> n < 10 \<Longrightarrow> pad_start2 (to_dec n) = to_dec n"
    using len by (simp add: pad_start2_def)
  have nz: "\<And>n. \<not> n < 10 \<Longrightarrow> hd (pad_start2 (to_dec n)) \<noteq> CHR ''0''"
    using big to_dec_hd_nonzero by simp
  show "a = b"
  proof (cases "a < 10"; cases "b < 10")
    assume "a < 10" "b < 10"
    then show ?thesis using eq small to_dec_inj by simp
  next
    assume "a < 10" "\<not> b < 10"
    then show ?thesis using eq small[of a] nz[of b] by (metis list.sel(1))
  next
    assume "\<not> a < 10" "b < 10"
    then show ?thesis using eq small[of b] nz[of a] by (metis list.sel(1))
  next
    assume "\<not> a < 10" "\<not> b < 10"
    then show ?thesis using eq big to_dec_inj by simp
  qed
qed

section \<open>The inner loop and its description\<close>

lemma conflict_block_eq:
  "conflict_block n k old v =
     [(''conf-start::'' @ pad_start2 (to_dec n), JStr []), (''curr::'' @ k, old),
      (''conf-mid::'' @ pad_start2 (to_dec n), JStr []), (''tmpl::'' @ k, v),
      (''conf-end::'' @ pad_start2 (to_dec n), JStr [])]"
  by (simp add: conflict_block_def createConflictMarkers_def Let_def)

lemma has_own_snoc: "has_own (ps @ [(k, v)]) k' \<longleftrightarrow> has_own ps k' \<or> k' = k"
  by (auto simp: has_own_iff)

lemma conflict_step:
  assumes own: "map_of L k = Some old" and ch: "hasValueChanged old v"
    and fresh: "\<forall>x \<in> fst ` set (conflict_block n k old v). \<not> has_own L x"
  shows "merge_sub_entry (L, n) (k, v) = (js_delete L k @ conflict_block n k old v, Suc n)"
proof -
  let ?id = "pad_start2 (to_dec n)"
  let ?s = "''conf-start::'' @ ?id" and ?c = "''curr::'' @ k" and ?m = "''conf-mid::'' @ ?id"
  let ?t = "''tmpl::'' @ k" and ?e = "''conf-end::'' @ ?id"
  let ?L0 = "js_delete L k"
  from fresh have f: "\<not> has_own ?L0 ?s" "\<not> has_own ?L0 ?c" "\<not> has_own ?L0 ?m"
    "\<not> has_own ?L0 ?t" "\<not> has_own ?L0 ?e"
    by (simp_all add: conflict_block_eq has_own_js_delete)
  have 1: "js_set ?L0 ?s (JStr []) = ?L0 @ [(?s, JStr [])]"
    using f(1) by (intro js_set_new reserved_not_index reserved_not_proto marker_names_reserved)
  have 2: "js_set (?L0 @ [(?s, JStr [])]) ?c old = ?L0 @ [(?s, JStr []), (?c, old)]"
    using js_set_new[of "?L0 @ [(?s, JStr [])]" ?c old] f(2)
      reserved_not_index[OF marker_names_reserved(5)] reserved_not_proto[OF marker_names_reserved(5)]
    by (simp add: has_own_snoc)
  have 3: "js_set (?L0 @ [(?s, JStr []), (?c, old)]) ?m (JStr [])
           = ?L0 @ [(?s, JStr []), (?c, old), (?m, JStr [])]"
    using js_set_new[of "?L0 @ [(?s, JStr []), (?c, old)]" ?m "JStr []"] f(3)
      reserved_not_index[OF marker_names_reserved(2)] reserved_not_proto[OF marker_names_reserved(2)]
    by (simp add: has_own_iff)
  have 4: "js_set (?L0 @ [(?s, JStr []), (?c, old), (?m, JStr [])]) ?t v
           = ?L0 @ [(?s, JStr []), (?c, old), (?m, JStr []), (?t, v)]"
    using js_set_new[of "?L0 @ [(?s, JStr []), (?c, old), (?m, JStr [])]" ?t v] f(4)
      reserved_not_index[OF marker_names_reserved(4)] reserved_not_proto[OF marker_names_reserved(4)]
    by (simp add: has_own_iff)
  have 5: "js_set (?L0 @ [(?s, JStr []), (?c, old), (?m, JStr []), (?t, v)]) ?e (JStr [])
           = ?L0 @ [(?s, JStr []), (?c, old), (?m, JStr []), (?t, v), (?e, JStr [])]"
    using js_set_new[of "?L0 @ [(?s, JStr []), (?c, old), (?m, JStr []), (?t, v)]" ?e "JStr []"] f(5)
      reserved_not_index[OF marker_names_reserved(3)] reserved_not_proto[OF marker_names_reserved(3)]
    by (simp add: has_own_iff)
  have get: "js_get L k = old" using own by (simp add: js_get_def)
  have "js_in k L" using own by (simp add: js_in_def has_own_def)
  then show ?thesis
    using ch get 1 2 3 4 5
    by (simp add: merge_sub_entry_def Let_def createConflictMarkers_def conflict_block_eq)
qed

lemma new_key_step:
  assumes "map_of L k = None" "object_prototype_get k = None" "array_index k = None"
  shows "merge_sub_entry (L, n) (k, v) = (L @ [(k, v)], n)"
proof -
  from assms(2) have "k \<noteq> ''__proto__''" by (auto simp: object_prototype_get_def)
  then show ?thesis
    using assms by (simp add: merge_sub_entry_def js_in_def has_own_def js_set_new)
qed

lemma equal_step:
  assumes "map_of L k = Some old" "\<not> hasValueChanged old v"
  shows "merge_sub_entry (L, n) (k, v) = (L, n)"
  using assms by (simp add: merge_sub_entry_def js_in_def has_own_def js_get_def)

lemma fresh_names_reserved: "x \<in> fresh_names n K \<Longrightarrow> reserved_key x"
  by (auto simp: fresh_names_def reserved_key_def)

lemma fresh_names_mono: "K' \<subseteq> K \<Longrightarrow> n \<le> n' \<Longrightarrow> fresh_names n' K' \<subseteq> fresh_names n K"
  by (fastforce simp: fresh_names_def)

lemma block_keys_fresh:
  "fst ` set (conflict_block n k old v) \<subseteq> fresh_names n (insert k K)"
  by (auto simp: conflict_block_eq fresh_names_def)

lemma block_keys_not_later:
  "k \<notin> K \<Longrightarrow> fst ` set (conflict_block n k old v) \<inter> fresh_names (Suc n) K = {}"
  by (auto simp: conflict_block_eq fresh_names_def dest: pad_start2_inj)

lemma block_keys_reserved: "x \<in> fst ` set (conflict_block n k old v) \<Longrightarrow> reserved_key x"
  using block_keys_fresh fresh_names_reserved by blast

lemma js_delete_absent: "k \<notin> fst ` set ps \<Longrightarrow> js_delete ps k = ps"
  by (induction ps) (auto simp: js_delete_def)

lemma js_delete_filter: "js_delete ps k = filter (\<lambda>p. fst p \<noteq> k) ps"
  by (simp add: js_delete_def)

lemma map_of_append_absent: "k \<notin> fst ` set qs \<Longrightarrow> map_of (ps @ qs) k = map_of ps k"
  by (simp add: map_add_def map_of_eq_None_iff[THEN iffD2] split: option.splits)

lemma plain_entries_Cons:
  "plain_entries m ((k, v) # es) \<longleftrightarrow>
     k \<notin> fst ` set es \<and> \<not> reserved_key k
     \<and> (map_of m k = None \<longrightarrow> array_index k = None \<and> object_prototype_get k = None)
     \<and> plain_entries m es"
  by (auto simp: plain_entries_def)

lemma fold_description_gen:
  assumes "plain_entries m es"
    and "\<forall>k \<in> fst ` set es. map_of (R @ A) k = map_of m k"
    and "fst ` set es \<inter> fst ` set A = {}"
    and "fresh_names n (fst ` set es) \<inter> fst ` set (R @ A) = {}"
  shows "foldl merge_sub_entry (R @ A, n) es
         = (filter (\<lambda>p. fst p \<notin> set (diverged m es)) R @ A @ appended m n es,
            n + length (diverged m es))"
  using assms
proof (induction es arbitrary: R A n)
  case Nil
  then show ?case by simp
next
  case (Cons e es)
  obtain k v where e: "e = (k, v)" by (cases e)
  from Cons.prems(1) e have knew: "k \<notin> fst ` set es" and kres: "\<not> reserved_key k"
    and kplain: "map_of m k = None \<longrightarrow> array_index k = None \<and> object_prototype_get k = None"
    and pl: "plain_entries m es"
    by (simp_all add: plain_entries_Cons)
  from Cons.prems(2) e have agree_k: "map_of (R @ A) k = map_of m k"
    and agree: "\<forall>k' \<in> fst ` set es. map_of (R @ A) k' = map_of m k'" by simp_all
  from Cons.prems(3) e have kA: "k \<notin> fst ` set A" and disj: "fst ` set es \<inter> fst ` set A = {}"
    by auto
  have fresh: "fresh_names n (insert k (fst ` set es)) \<inter> fst ` set (R @ A) = {}"
    using Cons.prems(4) e by simp
  have fresh_es: "fresh_names n (fst ` set es) \<inter> fst ` set (R @ A) = {}"
    using fresh fresh_names_mono[of "fst ` set es" "insert k (fst ` set es)" n n] by blast
  have res_es: "\<forall>k' \<in> fst ` set es. \<not> reserved_key k'"
    using pl by (auto simp: plain_entries_def list_all_iff)
  show ?case
  proof (cases "map_of m k")
    case None
    then have step: "merge_sub_entry (R @ A, n) (k, v) = (R @ (A @ [(k, v)]), n)"
      using new_key_step[of "R @ A" k n v] agree_k kplain by simp
    have a2: "\<forall>k' \<in> fst ` set es. map_of (R @ (A @ [(k, v)])) k' = map_of m k'"
    proof
      fix k' assume k': "k' \<in> fst ` set es"
      then have "k' \<noteq> k" using knew by auto
      then have x: "map_of ((R @ A) @ [(k, v)]) k' = map_of (R @ A) k'"
        by (intro map_of_append_absent) simp
      have y: "map_of (R @ A) k' = map_of m k'" using agree k' by blast
      show "map_of (R @ (A @ [(k, v)])) k' = map_of m k'" using x y by (simp only: append_assoc)
    qed
    have d2: "fst ` set es \<inter> fst ` set (A @ [(k, v)]) = {}" using disj knew by auto
    have f2: "fresh_names n (fst ` set es) \<inter> fst ` set (R @ (A @ [(k, v)])) = {}"
      using fresh_es kres fresh_names_reserved by auto
    from Cons.IH[OF pl a2 d2 f2] step None show ?thesis by (simp add: e)
  next
    case (Some old)
    then have own: "map_of (R @ A) k = Some old" using agree_k by simp
    show ?thesis
    proof (cases "hasValueChanged old v")
      case False
      then have step: "merge_sub_entry (R @ A, n) (k, v) = (R @ A, n)"
        using equal_step[OF own] by simp
      from Cons.IH[OF pl agree disj fresh_es] step Some False show ?thesis by (simp add: e)
    next
      case True
      let ?B = "conflict_block n k old v"
      have "\<forall>x \<in> fst ` set ?B. \<not> has_own (R @ A) x"
        using block_keys_fresh[of n k old v "fst ` set es"] fresh by (auto simp: has_own_iff)
      from conflict_step[OF own True this]
      have "merge_sub_entry (R @ A, n) (k, v) = (js_delete (R @ A) k @ ?B, Suc n)" .
      then have step: "merge_sub_entry (R @ A, n) (k, v) = (js_delete R k @ (A @ ?B), Suc n)"
        using js_delete_absent[OF kA] by (simp add: js_delete_append)
      have a2: "\<forall>k' \<in> fst ` set es. map_of (js_delete R k @ (A @ ?B)) k' = map_of m k'"
      proof
        fix k' assume k': "k' \<in> fst ` set es"
        then have ne: "k' \<noteq> k" using knew by auto
        have "k' \<notin> fst ` set ?B" using block_keys_reserved res_es k' by blast
        then have x: "map_of ((js_delete R k @ A) @ ?B) k' = map_of (js_delete R k @ A) k'"
          by (rule map_of_append_absent)
        have "js_delete R k @ A = js_delete (R @ A) k"
          using js_delete_absent[OF kA] by (simp add: js_delete_append)
        then have y: "map_of (js_delete R k @ A) k' = map_of (R @ A) k'"
          using ne by (simp only: map_of_js_delete if_False)
        have z: "map_of (R @ A) k' = map_of m k'" using agree k' by blast
        show "map_of (js_delete R k @ (A @ ?B)) k' = map_of m k'"
          using x y z by (simp only: append_assoc)
      qed
      have dB: "fst ` set es \<inter> fst ` set ?B = {}"
        using block_keys_reserved res_es by blast
      have d2: "fst ` set es \<inter> fst ` set (A @ ?B) = {}"
        using disj dB by (simp only: set_append image_Un Int_Un_distrib) simp
      have f2: "fresh_names (Suc n) (fst ` set es) \<inter> fst ` set (js_delete R k @ (A @ ?B)) = {}"
      proof -
        have "fresh_names (Suc n) (fst ` set es) \<subseteq> fresh_names n (insert k (fst ` set es))"
          by (rule fresh_names_mono) auto
        then have "fresh_names (Suc n) (fst ` set es) \<inter> fst ` set (R @ A) = {}"
          using fresh by blast
        then have 1: "fresh_names (Suc n) (fst ` set es) \<inter> fst ` set R = {}"
          and 2: "fresh_names (Suc n) (fst ` set es) \<inter> fst ` set A = {}"
          by (simp_all only: set_append image_Un Int_Un_distrib Un_empty)
        have "fst ` set (js_delete R k) \<subseteq> fst ` set R" by (auto simp: js_delete_def)
        with 1 have 3: "fresh_names (Suc n) (fst ` set es) \<inter> fst ` set (js_delete R k) = {}"
          by blast
        have 4: "fresh_names (Suc n) (fst ` set es) \<inter> fst ` set ?B = {}"
          using block_keys_not_later[OF knew, of n old v] by blast
        show ?thesis
          using 2 3 4 by (simp only: set_append image_Un Int_Un_distrib Un_empty)
      qed
      have flt: "filter (\<lambda>p. fst p \<notin> set (diverged m es)) (js_delete R k)
                 = filter (\<lambda>p. fst p \<notin> set (k # diverged m es)) R"
        by (induction R) (auto simp: js_delete_def)
      from Cons.IH[OF pl a2 d2 f2] step Some True flt show ?thesis by (simp add: e)
    qed
  qed
qed

lemma no_reserved_fresh: "no_reserved_keys m \<Longrightarrow> fresh_names n K \<inter> fst ` set m = {}"
  using fresh_names_reserved by (fastforce simp: no_reserved_keys_def list_all_iff)

text \<open>
  The inner loop computes the described object: on plain entries and a current
  object without reserved keys, the keys that diverge are removed from their
  places and everything new is added behind the keys that remain.
\<close>

lemma inner_loop_description:
  assumes "plain_entries m es" "no_reserved_keys m"
  shows "foldl merge_sub_entry (m, n) es
         = (merged_description m n es, n + length (diverged m es))"
  using fold_description_gen[of m es m "[]" n] assms no_reserved_fresh[of m n "fst ` set es"]
  by (simp add: merged_description_def)

section \<open>The outer loop\<close>

lemma object_entries_object: "is_object v \<Longrightarrow> object_entries v = Inr (spread v)"
  by (cases v) auto

lemma merge_entry_object:
  "merge_entry (JObj c) (result, n) (key, v)
     = Inr (js_set result key (assigned_value c n key v), next_counter c n key v)"
  by (auto simp: merge_entry_def assigned_value_def next_counter_def object_entries_object
           split: prod.splits)

lemma merge_entries_total:
  "\<exists>result' n'. merge_entries (JObj c) (result, n) es = Inr (result', n')"
proof (induction es arbitrary: result n)
  case Nil
  then show ?case by simp
next
  case (Cons e es)
  then show ?case by (cases e) (simp add: merge_entry_object)
qed

lemma merge_entries_other:
  assumes "merge_entries (JObj c) (result, n) es = Inr (result', n')" "k \<notin> fst ` set es"
  shows "map_of result' k = map_of result k"
  using assms
proof (induction es arbitrary: result n)
  case Nil
  then show ?case by simp
next
  case (Cons e es)
  obtain key v where e: "e = (key, v)" by (cases e)
  from Cons.prems(2) e have ne: "k \<noteq> key" and rest: "k \<notin> fst ` set es" by auto
  from Cons.prems(1) e
  have "merge_entries (JObj c) (js_set result key (assigned_value c n key v), next_counter c n key v) es
        = Inr (result', n')"
    by (simp add: merge_entry_object)
  from Cons.IH[OF this rest] ne show ?case by (simp add: map_of_js_set)
qed

lemma merge_entries_assigned:
  assumes "merge_entries (JObj c) (result, n) es = Inr (result', n')" "distinct (map fst es)"
    "(k, v) \<in> set es" "k \<noteq> ''__proto__''"
  shows "\<exists>j. map_of result' k = Some (assigned_value c j k v)"
  using assms
proof (induction es arbitrary: result n)
  case Nil
  then show ?case by simp
next
  case (Cons e es)
  obtain key w where e: "e = (key, w)" by (cases e)
  let ?r = "js_set result key (assigned_value c n key w)"
  from Cons.prems(1) e
  have run: "merge_entries (JObj c) (?r, next_counter c n key w) es = Inr (result', n')"
    by (simp add: merge_entry_object)
  from Cons.prems(2) e have d: "distinct (map fst es)" and knew: "key \<notin> fst ` set es" by auto
  show ?case
  proof (cases "(k, v) \<in> set es")
    case True
    from Cons.IH[OF run d True Cons.prems(4)] show ?thesis .
  next
    case False
    with Cons.prems(3) e have kv: "key = k" "w = v" by auto
    from merge_entries_other[OF run knew] kv Cons.prems(4)
    have "map_of result' k = Some (assigned_value c n k v)" by (simp add: map_of_js_set)
    then show ?thesis by blast
  qed
qed

lemma merge_entries_distinct:
  assumes "merge_entries (JObj c) (result, n) es = Inr (result', n')" "distinct (map fst result)"
  shows "distinct (map fst result')"
  using assms
proof (induction es arbitrary: result n)
  case Nil
  then show ?case by simp
next
  case (Cons e es)
  obtain key w where e: "e = (key, w)" by (cases e)
  from Cons.prems(1) e
  have run: "merge_entries (JObj c) (js_set result key (assigned_value c n key w), next_counter c n key w) es
             = Inr (result', n')"
    by (simp add: merge_entry_object)
  from Cons.IH[OF run distinct_js_set[OF Cons.prems(2)]] show ?case .
qed

lemma merge_json_object:
  "\<exists>r n'. merge_entries (JObj c) (c, 0) i = Inr (r, n') \<and> merge_json (JObj c) (JObj i) = Inr r"
proof -
  from merge_entries_total[of c c 0 i] obtain r n' where
    "merge_entries (JObj c) (c, 0) i = Inr (r, n')" by blast
  then show ?thesis by (simp add: merge_json_def)
qed

lemma map_of_written:
  "distinct (map fst ps) \<Longrightarrow>
   map_of (written ps) k
     = (case map_of ps k of None \<Rightarrow> None | Some v \<Rightarrow> if serializable v then Some v else None)"
proof (induction ps)
  case Nil
  then show ?case by (simp add: written_def)
next
  case (Cons p ps)
  obtain k' v' where p: "p = (k', v')" by (cases p)
  from Cons.prems p have notin: "k' \<notin> fst ` set ps" and d: "distinct (map fst ps)" by auto
  have "map_of (written ps) k' = None"
    using notin by (auto simp: written_def map_of_eq_None_iff)
  moreover have "map_of ps k' = None" using notin by (simp add: map_of_eq_None_iff)
  ultimately show ?case
    using Cons.IH[OF d] by (auto simp: p written_def)
qed

lemma compatible_serializable: "json_compatible v \<Longrightarrow> serializable v"
  by (cases v) auto

lemma compatible_member:
  "json_compatible (JObj ps) \<Longrightarrow> map_of ps k = Some v \<Longrightarrow> json_compatible v"
  using map_of_SomeD[of ps k v] by (fastforce simp: list_all_iff)

lemma protected_not_inherited:
  "k \<in> PACKAGE_JSON_PROTECTED_FIELDS \<Longrightarrow> object_prototype_get k = None \<and> k \<noteq> ''__proto__''"
  by (auto simp: PACKAGE_JSON_PROTECTED_FIELDS_def object_prototype_get_def
                 object_prototype_functions_def)

lemma protected_lookup:
  assumes run: "merge_entries (JObj c) (c, 0) i = Inr (r, n')" and di: "distinct (map fst i)"
    and k: "k \<in> PACKAGE_JSON_PROTECTED_FIELDS"
  shows "map_of r k = (if k \<in> fst ` set i then Some (js_get c k) else map_of c k)"
proof (cases "k \<in> fst ` set i")
  case True
  then obtain v where "(k, v) \<in> set i" by auto
  from merge_entries_assigned[OF run di this] protected_not_inherited[OF k] k True
  show ?thesis by (auto simp: assigned_value_def)
next
  case False
  with merge_entries_other[OF run False] show ?thesis by simp
qed

lemma has_own_keys: "has_own ps k \<longleftrightarrow> k \<in> set (map fst ps)"
  by (simp add: has_own_iff)

lemma js_set_keys:
  "\<not> has_own ps k \<longrightarrow> array_index k = None \<and> k \<noteq> ''__proto__'' \<Longrightarrow>
   map fst (js_set ps k v) = map fst ps @ (if has_own ps k then [] else [k])"
  by (auto simp: js_set_own keys_replace_own js_set_new)

lemma merge_entries_keys:
  assumes "merge_entries (JObj c) (result, n) es = Inr (result', n')" "distinct (map fst es)"
    "\<forall>k \<in> fst ` set es. \<not> has_own result k \<longrightarrow> array_index k = None \<and> k \<noteq> ''__proto__''"
  shows "map fst result' = map fst result @ filter (\<lambda>k. \<not> has_own result k) (map fst es)"
  using assms
proof (induction es arbitrary: result n)
  case Nil
  then show ?case by simp
next
  case (Cons e es)
  obtain key w where e: "e = (key, w)" by (cases e)
  let ?r = "js_set result key (assigned_value c n key w)"
  from Cons.prems(1) e
  have run: "merge_entries (JObj c) (?r, next_counter c n key w) es = Inr (result', n')"
    by (simp add: merge_entry_object)
  from Cons.prems(2) e have d: "distinct (map fst es)" and knew: "key \<notin> fst ` set es" by auto
  from Cons.prems(3) e
  have hk: "\<not> has_own result key \<longrightarrow> array_index key = None \<and> key \<noteq> ''__proto__''" by simp
  have keys: "map fst ?r = map fst result @ (if has_own result key then [] else [key])"
    using js_set_keys[OF hk] .
  have own: "has_own ?r k \<longleftrightarrow> has_own result k \<or> k = key" for k
    unfolding has_own_keys keys by (simp add: has_own_keys[symmetric]) (auto simp: has_own_keys)
  have h2: "\<forall>k \<in> fst ` set es. \<not> has_own ?r k \<longrightarrow> array_index k = None \<and> k \<noteq> ''__proto__''"
    using Cons.prems(3) e own by auto
  have flt: "filter (\<lambda>k. \<not> has_own ?r k) (map fst es) = filter (\<lambda>k. \<not> has_own result k) (map fst es)"
    using knew own by (intro filter_cong) auto
  from Cons.IH[OF run d h2] keys flt show ?case by (simp add: e)
qed

lemma assigned_serializable:
  assumes "json_compatible (JObj c)" "json_compatible w"
  shows "serializable (assigned_value c n key w)
         \<longleftrightarrow> \<not> (key \<in> PACKAGE_JSON_PROTECTED_FIELDS \<and> \<not> has_own c key)"
proof (cases "key \<in> PACKAGE_JSON_PROTECTED_FIELDS")
  case True
  note ni = protected_not_inherited[OF True]
  show ?thesis
  proof (cases "map_of c key")
    case None
    then show ?thesis using True ni by (simp add: assigned_value_def js_get_def has_own_def)
  next
    case (Some v)
    then have "serializable v"
      using compatible_member[OF assms(1)] compatible_serializable by blast
    with Some show ?thesis using True by (simp add: assigned_value_def js_get_def has_own_def)
  qed
next
  case False
  then show ?thesis
    using compatible_serializable[OF assms(2)] by (simp add: assigned_value_def)
qed

lemma merge_entries_serializable:
  assumes "merge_entries (JObj c) (result, n) es = Inr (result', n')"
    "json_compatible (JObj c)" "list_all (\<lambda>p. json_compatible (snd p)) es"
    "\<forall>p \<in> set result. serializable (snd p)
        \<longleftrightarrow> \<not> (fst p \<in> PACKAGE_JSON_PROTECTED_FIELDS \<and> \<not> has_own c (fst p))"
  shows "\<forall>p \<in> set result'. serializable (snd p)
        \<longleftrightarrow> \<not> (fst p \<in> PACKAGE_JSON_PROTECTED_FIELDS \<and> \<not> has_own c (fst p))"
  using assms
proof (induction es arbitrary: result n)
  case Nil
  then show ?case by simp
next
  case (Cons e es)
  obtain key w where e: "e = (key, w)" by (cases e)
  let ?x = "assigned_value c n key w"
  let ?r = "js_set result key ?x"
  from Cons.prems(1) e
  have run: "merge_entries (JObj c) (?r, next_counter c n key w) es = Inr (result', n')"
    by (simp add: merge_entry_object)
  from Cons.prems(3) e have cw: "json_compatible w"
    and ces: "list_all (\<lambda>p. json_compatible (snd p)) es" by simp_all
  have inv: "\<forall>p \<in> set ?r. serializable (snd p)
        \<longleftrightarrow> \<not> (fst p \<in> PACKAGE_JSON_PROTECTED_FIELDS \<and> \<not> has_own c (fst p))"
  proof
    fix p assume "p \<in> set ?r"
    then have "p = (key, ?x) \<or> p \<in> set result" using set_js_set[of result key ?x] by blast
    then show "serializable (snd p)
        \<longleftrightarrow> \<not> (fst p \<in> PACKAGE_JSON_PROTECTED_FIELDS \<and> \<not> has_own c (fst p))"
      using assigned_serializable[OF Cons.prems(2) cw, of n key] Cons.prems(4) by auto
  qed
  from Cons.IH[OF run Cons.prems(2) ces inv] show ?case .
qed

section \<open>One incoming sub-key at a time\<close>

lemma merge_disjoint_protected:
  "f \<in> PACKAGE_JSON_MERGE_FIELDS \<Longrightarrow> f \<notin> PACKAGE_JSON_PROTECTED_FIELDS \<and> f \<noteq> ''__proto__''"
  by (auto simp: PACKAGE_JSON_MERGE_FIELDS_def PACKAGE_JSON_PROTECTED_FIELDS_def)

lemma merge_field_value:
  assumes "distinct (map fst i)" "(f, JObj es) \<in> set i" "f \<in> PACKAGE_JSON_MERGE_FIELDS"
  shows "\<exists>r j. merge_json (JObj c) (JObj i) = Inr r
          \<and> map_of r f = Some (JObj (fst (foldl merge_sub_entry (spread (js_get c f), j) es)))"
proof -
  from merge_json_object[of c i] obtain r n' where
    run: "merge_entries (JObj c) (c, 0) i = Inr (r, n')" and r: "merge_json (JObj c) (JObj i) = Inr r"
    by blast
  note d = merge_disjoint_protected[OF assms(3)]
  from merge_entries_assigned[OF run assms(1) assms(2)] d obtain j where
    "map_of r f = Some (assigned_value c j f (JObj es))" by blast
  then have "map_of r f = Some (JObj (fst (foldl merge_sub_entry (spread (js_get c f), j) es)))"
    using d assms(3) by (simp add: assigned_value_def)
  with r show ?thesis by blast
qed

lemma sub_entry_frame:
  assumes "x \<noteq> k" "\<forall>old. x \<notin> fst ` set (conflict_block n k old v)"
  shows "map_of (fst (merge_sub_entry (L, n) (k, v))) x = map_of L x"
proof -
  from assms(2) have ne: "x \<noteq> ''conf-start::'' @ pad_start2 (to_dec n)" "x \<noteq> ''curr::'' @ k"
    "x \<noteq> ''conf-mid::'' @ pad_start2 (to_dec n)" "x \<noteq> ''tmpl::'' @ k"
    "x \<noteq> ''conf-end::'' @ pad_start2 (to_dec n)"
    by (auto simp: conflict_block_eq)
  show ?thesis
    using assms(1) ne
    by (simp add: merge_sub_entry_def Let_def createConflictMarkers_def map_of_js_set
                  map_of_js_delete)
qed

lemma sub_fold_frame:
  assumes "x \<notin> fst ` set es" "\<forall>k \<in> fst ` set es. \<forall>n old v. x \<notin> fst ` set (conflict_block n k old v)"
  shows "map_of (fst (foldl merge_sub_entry (L, n) es)) x = map_of L x"
  using assms
proof (induction es arbitrary: L n)
  case Nil
  then show ?case by simp
next
  case (Cons e es)
  obtain k v where e: "e = (k, v)" by (cases e)
  obtain L' n' where st: "merge_sub_entry (L, n) (k, v) = (L', n')" by (cases "merge_sub_entry (L, n) (k, v)")
  from Cons.prems e have "x \<noteq> k" "\<forall>old. x \<notin> fst ` set (conflict_block n k old v)" by auto
  from sub_entry_frame[OF this, of L] st have "map_of L' x = map_of L x" by simp
  moreover from Cons.prems e have "x \<notin> fst ` set es"
    "\<forall>k \<in> fst ` set es. \<forall>n old v. x \<notin> fst ` set (conflict_block n k old v)" by auto
  from Cons.IH[OF this, of L' n'] have "map_of (fst (foldl merge_sub_entry (L', n') es)) x = map_of L' x" .
  ultimately show ?case by (simp add: e st)
qed

lemma unreserved_not_in_block:
  "\<not> reserved_key x \<Longrightarrow> x \<notin> fst ` set (conflict_block n k old v)"
  using block_keys_reserved by blast

lemma marker_not_in_other_block:
  "k' \<noteq> k \<Longrightarrow> ''curr::'' @ k \<notin> fst ` set (conflict_block n k' old v)
               \<and> ''tmpl::'' @ k \<notin> fst ` set (conflict_block n k' old v)"
  by (simp add: conflict_block_eq)

text \<open>
  What the inner loop does with one entry \<open>(k, v)\<close> of the incoming entries
  \<open>es\<close>, seen in the final object: the rounds before and after it leave \<open>k\<close> and
  its two sentinel names alone.
\<close>

lemma sub_fold_at_entry:
  assumes d: "distinct (map fst es)" and res: "\<forall>k' \<in> fst ` set es. \<not> reserved_key k'"
    and kv: "(k, v) \<in> set es"
  shows "\<exists>L1 n1 L2 n2. merge_sub_entry (L1, n1) (k, v) = (L2, n2)
           \<and> (\<forall>x \<in> {k, ''curr::'' @ k, ''tmpl::'' @ k}.
                 map_of L1 x = map_of L x
                 \<and> map_of (fst (foldl merge_sub_entry (L, n) es)) x = map_of L2 x)"
proof -
  from kv obtain es1 es2 where es: "es = es1 @ (k, v) # es2" by (meson split_list)
  obtain L1 n1 where s1: "foldl merge_sub_entry (L, n) es1 = (L1, n1)"
    by (cases "foldl merge_sub_entry (L, n) es1")
  obtain L2 n2 where s2: "merge_sub_entry (L1, n1) (k, v) = (L2, n2)"
    by (cases "merge_sub_entry (L1, n1) (k, v)")
  from d es have k1: "k \<notin> fst ` set es1" and k2: "k \<notin> fst ` set es2" by auto
  have kres: "\<not> reserved_key k" using res kv by force
  have frame: "map_of (fst (foldl merge_sub_entry (M, j) es')) x = map_of M x"
    if "set es' \<subseteq> set es" "k \<notin> fst ` set es'" "x \<in> {k, ''curr::'' @ k, ''tmpl::'' @ k}"
    for M j es' x
  proof (rule sub_fold_frame)
    have r': "\<forall>k' \<in> fst ` set es'. \<not> reserved_key k'" using res that(1) by auto
    show "x \<notin> fst ` set es'"
      using that(2,3) r' marker_names_reserved(4,5)[of k] by auto
    show "\<forall>k' \<in> fst ` set es'. \<forall>n old v. x \<notin> fst ` set (conflict_block n k' old v)"
    proof (intro ballI allI)
      fix k' n old v assume k': "k' \<in> fst ` set es'"
      then have ne: "k' \<noteq> k" using that(2) by auto
      from that(3) consider "x = k" | "x = ''curr::'' @ k" | "x = ''tmpl::'' @ k" by blast
      then show "x \<notin> fst ` set (conflict_block n k' old v)"
      proof cases
        case 1
        then show ?thesis using unreserved_not_in_block[OF kres, of n k' old v] by simp
      next
        case 2
        then show ?thesis using marker_not_in_other_block[OF ne, of n old v] by simp
      next
        case 3
        then show ?thesis using marker_not_in_other_block[OF ne, of n old v] by simp
      qed
    qed
  qed
  have a: "map_of L1 x = map_of L x" if "x \<in> {k, ''curr::'' @ k, ''tmpl::'' @ k}" for x
    using frame[of es1 x L n] k1 that s1 es by auto
  have b: "map_of (fst (foldl merge_sub_entry (L, n) es)) x = map_of L2 x"
    if "x \<in> {k, ''curr::'' @ k, ''tmpl::'' @ k}" for x
    using frame[of es2 x L2 n2] k2 that s1 s2 es by auto
  from s2 a b show ?thesis by blast
qed

lemma no_reserved_lookup:
  "no_reserved_keys m \<Longrightarrow> reserved_key x \<Longrightarrow> map_of m x = None"
  by (force simp: no_reserved_keys_def list_all_iff map_of_eq_None_iff)

lemma sub_fold_new_or_equal:
  assumes d: "distinct (map fst es)" and res: "no_reserved_keys es" and mres: "no_reserved_keys m"
    and kv: "(k, v) \<in> set es"
    and cases: "map_of m k = None \<and> object_prototype_get k = None \<and> w = v
                \<or> map_of m k = Some w \<and> \<not> hasValueChanged w v"
  shows "map_of (fst (foldl merge_sub_entry (m, n) es)) k = Some w
         \<and> \<not> has_own (fst (foldl merge_sub_entry (m, n) es)) (''curr::'' @ k)
         \<and> \<not> has_own (fst (foldl merge_sub_entry (m, n) es)) (''tmpl::'' @ k)"
proof -
  let ?M = "fst (foldl merge_sub_entry (m, n) es)"
  have res': "\<forall>k' \<in> fst ` set es. \<not> reserved_key k'"
    using res by (auto simp: no_reserved_keys_def list_all_iff)
  from sub_fold_at_entry[OF d res' kv, of m n] obtain L1 n1 L2 n2 where
    st: "merge_sub_entry (L1, n1) (k, v) = (L2, n2)"
    and fr: "\<forall>x \<in> {k, ''curr::'' @ k, ''tmpl::'' @ k}.
                 map_of L1 x = map_of m x \<and> map_of ?M x = map_of L2 x" by blast
  have c0: "map_of m (''curr::'' @ k) = None" and t0: "map_of m (''tmpl::'' @ k) = None"
    using no_reserved_lookup[OF mres] marker_names_reserved by blast+
  from fr have k1: "map_of L1 k = map_of m k" and c1: "map_of L1 (''curr::'' @ k) = None"
    and t1: "map_of L1 (''tmpl::'' @ k) = None"
    and kM: "map_of ?M k = map_of L2 k" and cM: "map_of ?M (''curr::'' @ k) = map_of L2 (''curr::'' @ k)"
    and tM: "map_of ?M (''tmpl::'' @ k) = map_of L2 (''tmpl::'' @ k)"
    using c0 t0 by simp_all
  have "map_of L2 k = Some w \<and> map_of L2 (''curr::'' @ k) = None \<and> map_of L2 (''tmpl::'' @ k) = None"
    using cases
  proof
    assume a: "map_of m k = None \<and> object_prototype_get k = None \<and> w = v"
    then have "k \<noteq> ''__proto__''" by (auto simp: object_prototype_get_def)
    moreover have "L2 = js_set L1 k v"
      using st a k1 by (simp add: merge_sub_entry_def js_in_def has_own_def)
    ultimately show ?thesis using a c1 t1 by (simp add: map_of_js_set)
  next
    assume a: "map_of m k = Some w \<and> \<not> hasValueChanged w v"
    then have "L2 = L1" using st k1 equal_step[of L1 k w v n1] by simp
    then show ?thesis using a k1 c1 t1 by simp
  qed
  then show ?thesis using kM cM tM by (simp add: has_own_def)
qed

lemma appended_keys:
  "x \<in> fst ` set (appended m n es) \<Longrightarrow>
     (x \<in> fst ` set es \<and> map_of m x = None) \<or> reserved_key x"
proof (induction es arbitrary: n)
  case Nil
  then show ?case by simp
next
  case (Cons e es)
  obtain k v where e: "e = (k, v)" by (cases e)
  show ?case
  proof (cases "map_of m k")
    case None
    with Cons e show ?thesis by auto
  next
    case (Some old)
    show ?thesis
    proof (cases "hasValueChanged old v")
      case True
      with Cons.prems e Some
      have "x \<in> fst ` set (conflict_block n k old v) \<or> x \<in> fst ` set (appended m (Suc n) es)"
        by auto
      then show ?thesis
      proof
        assume "x \<in> fst ` set (conflict_block n k old v)"
        then show ?thesis using block_keys_reserved by blast
      next
        assume "x \<in> fst ` set (appended m (Suc n) es)"
        from Cons.IH[OF this] show ?thesis by auto
      qed
    next
      case False
      with Cons e Some show ?thesis by auto
    qed
  qed
qed

lemma appended_holds_block:
  assumes "(k, v) \<in> set es" "map_of m k = Some old" "hasValueChanged old v"
  shows "\<exists>pre post j. appended m n es = pre @ conflict_block j k old v @ post"
  using assms(1)
proof (induction es arbitrary: n)
  case Nil
  then show ?case by simp
next
  case (Cons e es)
  obtain k' v' where e: "e = (k', v')" by (cases e)
  show ?case
  proof (cases "e = (k, v)")
    case True
    then have "appended m n (e # es) = [] @ conflict_block n k old v @ appended m (Suc n) es"
      using assms(2,3) by simp
    then show ?thesis by blast
  next
    case False
    with Cons.prems have "(k, v) \<in> set es" by simp
    from Cons.IH[OF this] have ih: "\<exists>pre post j. appended m n' es = pre @ conflict_block j k old v @ post" for n'
      by blast
    show ?thesis
    proof (cases "map_of m k'")
      case None
      from ih[of n] obtain pre post j where "appended m n es = pre @ conflict_block j k old v @ post"
        by blast
      then have "appended m n (e # es) = ((k', v') # pre) @ conflict_block j k old v @ post"
        using None e by simp
      then show ?thesis by blast
    next
      case (Some old')
      show ?thesis
      proof (cases "hasValueChanged old' v'")
        case True
        from ih[of "Suc n"] obtain pre post j where
          "appended m (Suc n) es = pre @ conflict_block j k old v @ post" by blast
        then have "appended m n (e # es)
                   = (conflict_block n k' old' v' @ pre) @ conflict_block j k old v @ post"
          using Some True e by simp
        then show ?thesis by blast
      next
        case False
        from ih[of n] obtain pre post j where
          "appended m n es = pre @ conflict_block j k old v @ post" by blast
        then have "appended m n (e # es) = pre @ conflict_block j k old v @ post"
          using Some False e by simp
        then show ?thesis by blast
      qed
    qed
  qed
qed

lemma diverged_member:
  "(k, v) \<in> set es \<Longrightarrow> map_of m k = Some old \<Longrightarrow> hasValueChanged old v \<Longrightarrow> k \<in> set (diverged m es)"
  by (induction es) (auto split: option.splits)

section \<open>Protected fields in the merged object\<close>

text \<open>
  The merged object, before it is written. For parsed current and incoming
  manifest objects (keys not repeated, the current one JSON-compatible) the
  merge yields a mapping, and for every
  protected key (name, version, private, description, author, license, repository,
  bugs, homepage) the value read from the merged mapping is the value read from
  the current document, and the property written for that key is the property of
  the current document: present with the same value, or absent when the current
  document lacks the key, whatever the incoming document supplies.
\<close>

lemma protected_fields_in_merged_object:
  assumes "distinct (map fst c)" "distinct (map fst i)" "json_compatible (JObj c)"
  shows "\<exists>r. merge_json (JObj c) (JObj i) = Inr r
             \<and> (\<forall>k \<in> PACKAGE_JSON_PROTECTED_FIELDS.
                   js_get r k = js_get c k \<and> map_of (written r) k = map_of c k)"
proof -
  from merge_json_object[of c i] obtain r n' where
    run: "merge_entries (JObj c) (c, 0) i = Inr (r, n')" and r: "merge_json (JObj c) (JObj i) = Inr r"
    by blast
  have dr: "distinct (map fst r)" using merge_entries_distinct[OF run assms(1)] .
  have "js_get r k = js_get c k \<and> map_of (written r) k = map_of c k"
    if k: "k \<in> PACKAGE_JSON_PROTECTED_FIELDS" for k
  proof -
    note look = protected_lookup[OF run assms(2) k]
    note ni = protected_not_inherited[OF k]
    show ?thesis
    proof (cases "map_of c k")
      case None
      then have "js_get c k = JUndefined" using ni by (simp add: js_get_def)
      with look None have "map_of r k = None \<or> map_of r k = Some JUndefined" by auto
      then show ?thesis
        using None ni by (auto simp: js_get_def map_of_written[OF dr])
    next
      case (Some v)
      then have g: "js_get c k = v" by (simp add: js_get_def)
      with look Some have rk: "map_of r k = Some v" by auto
      have "serializable v"
        using compatible_member[OF assms(3) Some] compatible_serializable by blast
      with rk Some g show ?thesis by (simp add: js_get_def map_of_written[OF dr])
    qed
  qed
  with r show ?thesis by blast
qed

section \<open>Evaluating the merge on given documents\<close>

lemma array_index_nondigit: "c \<notin> set ''0123456789'' \<Longrightarrow> array_index (c # cs) = None"
  by (auto simp: array_index_def)

lemma to_dec_small: "n < 10 \<Longrightarrow> to_dec n = [''0123456789'' ! n]"
  by (subst to_dec.simps) simp

lemma merge_sub_entry_unfold:
  "merge_sub_entry (m, n) (k, v) =
     (if \<not> js_in k m then (js_set m k v, n)
      else if hasValueChanged (js_get m k) v then
        (js_set (js_set (js_set (js_set (js_set (js_delete m k)
            (''conf-start::'' @ pad_start2 (to_dec n)) (JStr []))
            (''curr::'' @ k) (js_get m k))
            (''conf-mid::'' @ pad_start2 (to_dec n)) (JStr []))
            (''tmpl::'' @ k) v)
            (''conf-end::'' @ pad_start2 (to_dec n)) (JStr []), Suc n)
      else (m, n))"
  by (simp add: merge_sub_entry_def Let_def createConflictMarkers_def)

lemma merge_json_unfold:
  "merge_json c i =
     (case object_entries i of
        Inl err \<Rightarrow> Inl err
      | Inr es \<Rightarrow> (case merge_entries c (spread c, 0) es of
                    Inl err \<Rightarrow> Inl err | Inr (r, n) \<Rightarrow> Inr r))"
  by (simp add: merge_json_def)

lemmas merge_eval =
  merge_json_unfold merge_entry_object assigned_value_def next_counter_def merge_sub_entry_unfold PACKAGE_JSON_PROTECTED_FIELDS_def
  PACKAGE_JSON_MERGE_FIELDS_def js_get_def js_set_def js_in_def js_delete_def has_own_def
  define_own_def array_index_nondigit object_prototype_get_def object_prototype_functions_def
  hasValueChanged_def json_stringify_def quoteJSONString_def quote_char_def char_defs
  pad_start2_def to_dec_small

lemmas text_eval =
  merge_def merge_try_def merge_parsed_def parse_manifests_def parse_table_def manifest_text_def
  json_stringify_indent2_def transformToGitConflicts_def trim_def is_ws_def marker_match_def

section \<open>Failure of the merge and the dispatch on empty content\<close>

text \<open>
  Claim C6. \<^verbatim>\<open>packageJsonHandler.merge\<close> returns a text and a logger for every pair of
  input strings: it has no failing result. Whenever the body of its \<^verbatim>\<open>try\<close> block
  fails with an error, the text returned is the current document unmodified and the
  only effect is one warning given to the logger. The body fails when
  \<^verbatim>\<open>JSON.parse\<close> rejects the current text, when it rejects the incoming text, and
  when the incoming text parses to \<^verbatim>\<open>null\<close>.
\<close>

theorem merge_falls_back_to_current:
  "(merge_try json_parse current incoming = Inl error \<longrightarrow>
      merge json_parse current incoming logger
        = (current, log logger (''Warning: Failed to merge package.json, using current version: ''
                                @ error_text error)))
   \<and> (json_parse current = Inl error \<longrightarrow> merge_try json_parse current incoming = Inl error)
   \<and> (json_parse current = Inr v \<and> json_parse incoming = Inl error \<longrightarrow>
        merge_try json_parse current incoming = Inl error)
   \<and> (json_parse current = Inr v \<and> json_parse incoming = Inr JNull \<longrightarrow>
        (\<exists>e. merge_try json_parse current incoming = Inl e))"
  by (simp add: merge_def merge_try_def merge_parsed_def merge_json_def)

theorem merge_falls_back_to_current_witness:
  "merge (\<lambda>s. if s = ''{}'' then Inr (JObj []) else Inl (SyntaxError ''Unexpected token''))
         ''{}'' ''{oops'' \<lparr>verbose = False, logs = [], console = []\<rparr>
     = (''{}'',
        \<lparr>verbose = False,
         logs = [''Warning: Failed to merge package.json, using current version: SyntaxError: Unexpected token''],
         console = []\<rparr>)"
  using merge_falls_back_to_current
    [of "\<lambda>s. if s = ''{}'' then Inr (JObj []) else Inl (SyntaxError ''Unexpected token'')"
        "''{}''" "''{oops''" "SyntaxError ''Unexpected token''"
        "\<lparr>verbose = False, logs = [], console = []\<rparr>" "JObj []"]
  by (simp add: log_def error_text_def)

text \<open>
  Claim C9. When the destination file exists with empty content, \<^verbatim>\<open>handleSpecialFile\<close>
  does what it does for an absent file: for every path, a manifest path included,
  and every incoming content it returns the incoming content unchanged and leaves
  the logger as it was, so no merge runs and nothing of the current file is kept.
\<close>

theorem empty_current_content_is_absent:
  "handleSpecialFile json_parse filePath (Some []) incomingContent logger = (incomingContent, logger)
   \<and> handleSpecialFile json_parse filePath None incomingContent logger = (incomingContent, logger)"
  by (simp add: handleSpecialFile_def SPECIAL_FILE_HANDLERS_def)

section \<open>Order of the keys of the merged object\<close>

text \<open>
  The merged object, before it is written. For parsed current and incoming
  manifest objects with JSON-compatible values, where the incoming keys are not
  repeated and every incoming key that the current document lacks is neither an
  array index nor \<^verbatim>\<open>__proto__\<close>, the merge yields a mapping whose own keys are the
  keys of the current document in their order followed by the incoming-only keys
  in their incoming order. The properties \<^verbatim>\<open>JSON.stringify\<close> writes for it are those
  of the keys of the current document in their order, followed by the
  incoming-only keys that are not protected fields, in their incoming order: an
  incoming-only protected key is assigned \<^verbatim>\<open>undefined\<close> and is not written.
\<close>

lemma merged_object_key_order:
  assumes "distinct (map fst i)" "json_compatible (JObj c)" "json_compatible (JObj i)"
    "\<forall>k \<in> fst ` set i. \<not> has_own c k \<longrightarrow> array_index k = None \<and> k \<noteq> ''__proto__''"
  shows "\<exists>r. merge_json (JObj c) (JObj i) = Inr r
             \<and> map fst r = map fst c @ filter (\<lambda>k. \<not> has_own c k) (map fst i)
             \<and> map fst (written r)
                 = map fst c @ filter (\<lambda>k. \<not> has_own c k \<and> k \<notin> PACKAGE_JSON_PROTECTED_FIELDS) (map fst i)"
proof -
  from merge_json_object[of c i] obtain r n' where
    run: "merge_entries (JObj c) (c, 0) i = Inr (r, n')" and r: "merge_json (JObj c) (JObj i) = Inr r"
    by blast
  let ?P = "\<lambda>k. \<not> (k \<in> PACKAGE_JSON_PROTECTED_FIELDS \<and> \<not> has_own c k)"
  have keys: "map fst r = map fst c @ filter (\<lambda>k. \<not> has_own c k) (map fst i)"
    using merge_entries_keys[OF run assms(1) assms(4)] .
  have "\<forall>p \<in> set c. serializable (snd p) \<longleftrightarrow> ?P (fst p)"
    using assms(2) compatible_serializable by (auto simp: list_all_iff has_own_iff)
  from merge_entries_serializable[OF run assms(2) _ this] assms(3)
  have inv: "\<forall>p \<in> set r. serializable (snd p) \<longleftrightarrow> ?P (fst p)" by simp
  have "written r = filter (\<lambda>p. ?P (fst p)) r"
    unfolding written_def using inv by (intro filter_cong) auto
  then have "map fst (written r) = filter ?P (map fst r)" by (simp add: filter_map comp_def)
  also have "\<dots> = filter ?P (map fst c) @ filter ?P (filter (\<lambda>k. \<not> has_own c k) (map fst i))"
    by (simp add: keys)
  also have "filter ?P (map fst c) = map fst c"
    by (rule filter_True) (simp add: has_own_keys)
  also have "filter ?P (filter (\<lambda>k. \<not> has_own c k) (map fst i))
             = filter (\<lambda>k. \<not> has_own c k \<and> k \<notin> PACKAGE_JSON_PROTECTED_FIELDS) (map fst i)"
    by (auto intro: filter_cong)
  finally show ?thesis using r keys by blast
qed

section \<open>New and unchanged sub-keys in the merged object\<close>

text \<open>
  The merged object, before it is written. Let the incoming document hold an
  object under a merge field (dependencies, devDependencies, peerDependencies,
  scripts), with sub-keys that are not repeated and not reserved for conflict
  sentinels, and let the current object under that field (empty when the current
  document has no such object) hold no reserved key. Then the merged object holds
  an object under that field, in which every incoming sub-key that the current
  object lacks and that is not a name inherited from \<^verbatim>\<open>Object.prototype\<close> has the
  incoming value, and every sub-key whose current and incoming values serialise
  alike keeps the current value; for neither is a sentinel \<^verbatim>\<open>curr::\<close> or \<^verbatim>\<open>tmpl::\<close>
  property created.
\<close>

lemma new_and_equal_sub_keys_in_merged_object:
  assumes "distinct (map fst i)" "(f, JObj es) \<in> set i" "f \<in> PACKAGE_JSON_MERGE_FIELDS"
    and "distinct (map fst es)" "no_reserved_keys es" "no_reserved_keys (spread (js_get c f))"
  shows "\<exists>r merged. merge_json (JObj c) (JObj i) = Inr r \<and> map_of r f = Some (JObj merged)
     \<and> (\<forall>(k, v) \<in> set es.
          (map_of (spread (js_get c f)) k = None \<and> object_prototype_get k = None \<longrightarrow>
             map_of merged k = Some v
             \<and> \<not> has_own merged (''curr::'' @ k) \<and> \<not> has_own merged (''tmpl::'' @ k))
          \<and> (\<forall>old. map_of (spread (js_get c f)) k = Some old \<and> \<not> hasValueChanged old v \<longrightarrow>
             map_of merged k = Some old
             \<and> \<not> has_own merged (''curr::'' @ k) \<and> \<not> has_own merged (''tmpl::'' @ k)))"
proof -
  let ?m = "spread (js_get c f)"
  from merge_field_value[OF assms(1-3), of c] obtain r j where
    r: "merge_json (JObj c) (JObj i) = Inr r"
    and v: "map_of r f = Some (JObj (fst (foldl merge_sub_entry (?m, j) es)))" by blast
  let ?M = "fst (foldl merge_sub_entry (?m, j) es)"
  have "\<forall>(k, v) \<in> set es.
          (map_of ?m k = None \<and> object_prototype_get k = None \<longrightarrow>
             map_of ?M k = Some v \<and> \<not> has_own ?M (''curr::'' @ k) \<and> \<not> has_own ?M (''tmpl::'' @ k))
          \<and> (\<forall>old. map_of ?m k = Some old \<and> \<not> hasValueChanged old v \<longrightarrow>
             map_of ?M k = Some old \<and> \<not> has_own ?M (''curr::'' @ k) \<and> \<not> has_own ?M (''tmpl::'' @ k))"
    using sub_fold_new_or_equal[OF assms(4-6)] by blast
  with r v show ?thesis by blast
qed

section \<open>Where the conflict sentinels are placed\<close>

text \<open>
  Claim C3, as the code has it. Let the incoming document hold an object under a
  merge field whose entries are plain for the current object under that field
  (no sub-key repeated or reserved; a sub-key the current object lacks is neither
  an array index nor an inherited name), and let the current object hold no
  reserved key. If the value of a sub-key diverges between the two, the merged
  object no longer holds that sub-key, and its five sentinel properties (start,
  current value, mid, incoming value, end) stand next to each other, in this
  order, behind all the properties of the current object that did not diverge,
  which keep their order and values. The sentinels are appended, not put in the
  place of the sub-key: a diverged sub-key that precedes an unchanged sibling in
  the current object comes after it in the merged object.
\<close>

theorem conflict_block_is_appended:
  assumes "distinct (map fst i)" "(f, JObj es) \<in> set i" "f \<in> PACKAGE_JSON_MERGE_FIELDS"
    and "spread (js_get c f) = m" "plain_entries m es" "no_reserved_keys m"
    and "(k, v) \<in> set es" "map_of m k = Some old" "hasValueChanged old v"
  shows "\<exists>r merged pre post j.
           merge_json (JObj c) (JObj i) = Inr r \<and> map_of r f = Some (JObj merged)
           \<and> merged = filter (\<lambda>p. fst p \<notin> set (diverged m es)) m
                        @ pre @ conflict_block j k old v @ post
           \<and> \<not> has_own merged k"
proof -
  from merge_field_value[OF assms(1-3), of c] assms(4) obtain r j where
    r: "merge_json (JObj c) (JObj i) = Inr r"
    and v: "map_of r f = Some (JObj (fst (foldl merge_sub_entry (m, j) es)))" by auto
  have M: "fst (foldl merge_sub_entry (m, j) es) = merged_description m j es"
    using inner_loop_description[OF assms(5,6)] by simp
  from appended_holds_block[OF assms(7-9)] obtain pre post j' where
    ap: "appended m j es = pre @ conflict_block j' k old v @ post" by blast
  have kres: "\<not> reserved_key k"
    using assms(5,7) by (force simp: plain_entries_def list_all_iff)
  have "k \<notin> fst ` set (appended m j es)"
    using appended_keys[of k m j es] kres assms(8) by auto
  moreover have "k \<notin> fst ` set (filter (\<lambda>p. fst p \<notin> set (diverged m es)) m)"
    using diverged_member[OF assms(7-9)] by auto
  ultimately have "\<not> has_own (merged_description m j es) k"
    by (auto simp: has_own_iff merged_description_def)
  with r v M ap show ?thesis by (auto simp: merged_description_def)
qed

theorem conflict_block_is_appended_witness:
  "\<exists>r merged pre post j.
      merge_json (JObj [(''scripts'', JObj [(''dev'', JStr ''a''), (''build'', JStr ''x'')])])
                 (JObj [(''scripts'', JObj [(''dev'', JStr ''b''), (''build'', JStr ''x'')])]) = Inr r
      \<and> map_of r ''scripts'' = Some (JObj merged)
      \<and> merged = [(''build'', JStr ''x'')] @ pre @ conflict_block j ''dev'' (JStr ''a'') (JStr ''b'') @ post
      \<and> \<not> has_own merged ''dev''"
proof -
  let ?m = "[(''dev'', JStr ''a''), (''build'', JStr ''x'')]"
  let ?es = "[(''dev'', JStr ''b''), (''build'', JStr ''x'')]"
  let ?c = "[(''scripts'', JObj ?m)]"
  let ?i = "[(''scripts'', JObj ?es)]"
  have h: "distinct (map fst ?i)" "(''scripts'', JObj ?es) \<in> set ?i"
    "''scripts'' \<in> PACKAGE_JSON_MERGE_FIELDS" "spread (js_get ?c ''scripts'') = ?m"
    "plain_entries ?m ?es" "no_reserved_keys ?m"
    "(''dev'', JStr ''b'') \<in> set ?es" "map_of ?m ''dev'' = Some (JStr ''a'')"
    "hasValueChanged (JStr ''a'') (JStr ''b'')"
    by (simp_all add: PACKAGE_JSON_MERGE_FIELDS_def js_get_def plain_entries_def
          no_reserved_keys_def reserved_key_def hasValueChanged_def json_stringify_def
          quoteJSONString_def quote_char_def char_defs)
  have d: "filter (\<lambda>p. fst p \<notin> set (diverged ?m ?es)) ?m = [(''build'', JStr ''x'')]"
    by (simp add: hasValueChanged_def json_stringify_def quoteJSONString_def quote_char_def char_defs)
  from conflict_block_is_appended[OF h] show ?thesis unfolding d .
qed

text \<open>
  The claim as stated fails on the scenario of the specification: with current
  scripts \<^verbatim>\<open>{"dev": "a", "build": "x"}\<close> and incoming scripts
  \<^verbatim>\<open>{"dev": "b", "build": "x"}\<close> the key \<^verbatim>\<open>dev\<close> precedes \<^verbatim>\<open>build\<close> in the
  current object, and in the merged object \<^verbatim>\<open>build\<close> precedes the five sentinels
  of \<^verbatim>\<open>dev\<close>.
\<close>

theorem conflict_block_is_appended_counterexample:
  "merge_json (JObj [(''scripts'', JObj [(''dev'', JStr ''a''), (''build'', JStr ''x'')])])
              (JObj [(''scripts'', JObj [(''dev'', JStr ''b''), (''build'', JStr ''x'')])])
     = Inr [(''scripts'',
             JObj [(''build'', JStr ''x''), (''conf-start::00'', JStr []), (''curr::dev'', JStr ''a''),
                   (''conf-mid::00'', JStr []), (''tmpl::dev'', JStr ''b''),
                   (''conf-end::00'', JStr [])])]
   \<and> map fst [(''dev'', JStr ''a''), (''build'', JStr ''x'')] = [''dev'', ''build'']
   \<and> map fst [(''build'', JStr ''x''), (''conf-start::00'', JStr []), (''curr::dev'', JStr ''a''),
               (''conf-mid::00'', JStr []), (''tmpl::dev'', JStr ''b''), (''conf-end::00'', JStr [])]
       = [''build'', ''conf-start::00'', ''curr::dev'', ''conf-mid::00'', ''tmpl::dev'', ''conf-end::00'']"
  by (simp add: merge_eval)

section \<open>Candidate paths of a workspace\<close>

lemma strict_equals_string: "strict_equals x (JStr n) \<longleftrightarrow> x = JStr n"
  by (cases x) auto

lemma split_on_nonempty: "split_on d s \<noteq> []"
  by (induction s) (auto split: list.splits)

lemma split_on_plain: "d \<notin> set b \<Longrightarrow> split_on d b = [b]"
  by (induction b) auto

lemma split_on_append: "split_on d (x @ d # y) = split_on d x @ split_on d y"
proof (induction x)
  case Nil
  then show ?case by simp
next
  case (Cons c x)
  then show ?case
    using split_on_nonempty[of d x] by (cases "split_on d x") auto
qed

lemma normalize_segments_snoc:
  "b \<noteq> [] \<Longrightarrow> b \<noteq> ''.'' \<Longrightarrow> b \<noteq> ''..'' \<Longrightarrow>
   normalize_segments a res (S @ [b]) = normalize_segments a res S @ [b]"
  by (induction S arbitrary: res) auto

lemma join_snoc: "join sep (R @ [b]) = (if R = [] then b else join sep R @ sep @ b)"
  by (induction sep R rule: join.induct) auto

lemma basename_after_slash:
  assumes "b \<noteq> []" "CHR ''/'' \<notin> set b" "Y = [] \<or> last Y = CHR ''/''"
  shows "path_basename (Y @ b) = b"
proof -
  have nb: "rev b \<noteq> []" "hd (rev b) \<noteq> CHR ''/''"
    using assms(1,2) by (auto simp: hd_rev) (metis last_in_set)
  then have d: "dropWhile (\<lambda>c. c = CHR ''/'') (rev b @ rev Y) = rev b @ rev Y"
    by (cases "rev b") auto
  have "takeWhile (\<lambda>c. c \<noteq> CHR ''/'') (rev b @ rev Y) = rev b"
  proof (cases "Y = []")
    case True
    then show ?thesis using assms(2) by (auto intro: takeWhile_eq_all_conv[THEN iffD2])
  next
    case False
    with assms(3) have "hd (rev Y) = CHR ''/''" "rev Y \<noteq> []" by (simp_all add: hd_rev)
    then have "takeWhile (\<lambda>c. c \<noteq> CHR ''/'') (rev Y) = []" by (cases "rev Y") auto
    moreover have "takeWhile (\<lambda>c. c \<noteq> CHR ''/'') (rev b @ rev Y)
                   = rev b @ takeWhile (\<lambda>c. c \<noteq> CHR ''/'') (rev Y)"
      using assms(2) by (intro takeWhile_append2) auto
    ultimately show ?thesis by simp
  qed
  with d show ?thesis by (simp add: path_basename_def)
qed

lemma basename_no_slash: "CHR ''/'' \<notin> set (path_basename p)"
proof -
  have "CHR ''/'' \<notin> set (takeWhile (\<lambda>c. c \<noteq> CHR ''/'') xs)" for xs
    by (induction xs) auto
  then show ?thesis by (simp add: path_basename_def)
qed

lemma normalize_ends_with:
  assumes b: "b \<noteq> []" "b \<noteq> ''.''" "b \<noteq> ''..''" "CHR ''/'' \<notin> set b"
  shows "\<exists>Y. path_normalize (X @ CHR ''/'' # b) = Y @ b \<and> (Y = [] \<or> last Y = CHR ''/'')"
proof -
  let ?p = "X @ CHR ''/'' # b"
  let ?R = "normalize_segments (hd ?p \<noteq> CHR ''/'') [] (split_on (CHR ''/'') X)"
  have last: "last ?p \<noteq> CHR ''/''" using b(1,4) by (auto simp: last_append) (metis last_in_set)
  have segs: "split_on (CHR ''/'') ?p = split_on (CHR ''/'') X @ [b]"
    using split_on_append[of "CHR ''/''" X b] split_on_plain[OF b(4)] by simp
  have s: "join ''/'' (normalize_segments (hd ?p \<noteq> CHR ''/'') [] (split_on (CHR ''/'') ?p))
           = (if ?R = [] then b else join ''/'' ?R @ ''/'' @ b)"
    unfolding segs normalize_segments_snoc[OF b(1-3)] join_snoc ..
  have ne: "(if ?R = [] then b else join ''/'' ?R @ ''/'' @ b) \<noteq> []" using b(1) by simp
  have "path_normalize ?p
        = (if hd ?p = CHR ''/'' then ''/'' else []) @ (if ?R = [] then b else join ''/'' ?R @ ''/'' @ b)"
    using last ne s by (simp add: path_normalize_def Let_def)
  then show ?thesis
    by (cases "?R = []"; cases "hd ?p = CHR ''/''") (auto intro: exI[of _ "_ @ ''/''"])
qed

lemma basename_of_join:
  assumes b: "b \<noteq> []" "b \<noteq> ''.''" "b \<noteq> ''..''" "CHR ''/'' \<notin> set b" and d: "d \<noteq> []"
  shows "path_basename (path_join [t, d, b]) = b"
proof -
  have "\<exists>X. join ''/'' (filter (\<lambda>a. a \<noteq> []) [t, d, b]) = X @ CHR ''/'' # b"
    using b(1) d by (cases "t = []") auto
  then obtain X where X: "join ''/'' (filter (\<lambda>a. a \<noteq> []) [t, d, b]) = X @ CHR ''/'' # b" by blast
  then have "path_join [t, d, b] = path_normalize (X @ CHR ''/'' # b)"
    by (simp add: path_join_def Let_def)
  with normalize_ends_with[OF b, of X] obtain Y where
    "path_join [t, d, b] = Y @ b" "Y = [] \<or> last Y = CHR ''/''" by auto
  then show ?thesis using basename_after_slash[OF b(1,4)] by simp
qed

lemma find_matching_string_name:
  assumes "packageName workspace = JStr n"
  shows "findMatchingTemplateWorkspace json_parse fs workspace tempDir
         = (let b = path_basename (ws_path workspace);
                p1 = path_join [tempDir, ''packages'', b]; p2 = path_join [tempDir, ''apps'', b]
            in if template_name json_parse fs p1 = Some (JStr n) then Some p1
               else if template_name json_parse fs p2 = Some (JStr n) then Some p2
               else None)"
proof -
  have m: "strict_equals (case getWorkspaceInfo json_parse fs p of
                            None \<Rightarrow> JUndefined | Some t \<Rightarrow> packageName t) (JStr n)
           \<longleftrightarrow> template_name json_parse fs p = Some (JStr n)" for p
    by (cases "getWorkspaceInfo json_parse fs p") (auto simp: template_name_def strict_equals_string)
  show ?thesis
    using assms by (simp add: findMatchingTemplateWorkspace_def Let_def m)
qed

section \<open>Resolution of a workspace by name\<close>

text \<open>
  Claim C2, as the code has it. For every project workspace whose manifest name
  is a string and whose directory has a proper basename \<open>b\<close>, resolution by
  name looks at two directories of the template only, \<^verbatim>\<open>packages/b\<close> and
  \<^verbatim>\<open>apps/b\<close>: it returns \<^verbatim>\<open>packages/b\<close> when the manifest there has the same
  name, otherwise \<^verbatim>\<open>apps/b\<close> when the manifest there has the same name, and
  otherwise nothing, which leaves the workspace to the generic fallback. So the
  category may differ, but every template workspace returned has the basename of
  the project workspace and its name: name equality is required in addition to
  the equality of the directory basenames, not in place of it.
\<close>

theorem template_match_needs_same_basename:
  assumes "packageName workspace = JStr n"
    and "path_basename (ws_path workspace) \<notin> {[], ''.'', ''..''}"
  shows "(\<forall>p. findMatchingTemplateWorkspace json_parse fs workspace tempDir = Some p \<longrightarrow>
            path_basename p = path_basename (ws_path workspace)
            \<and> template_name json_parse fs p = Some (JStr n))
       \<and> (template_name json_parse fs
             (path_join [tempDir, ''packages'', path_basename (ws_path workspace)]) = Some (JStr n) \<longrightarrow>
           findMatchingTemplateWorkspace json_parse fs workspace tempDir
             = Some (path_join [tempDir, ''packages'', path_basename (ws_path workspace)]))
       \<and> (template_name json_parse fs
             (path_join [tempDir, ''packages'', path_basename (ws_path workspace)]) \<noteq> Some (JStr n)
           \<and> template_name json_parse fs
               (path_join [tempDir, ''apps'', path_basename (ws_path workspace)]) = Some (JStr n) \<longrightarrow>
           findMatchingTemplateWorkspace json_parse fs workspace tempDir
             = Some (path_join [tempDir, ''apps'', path_basename (ws_path workspace)]))
       \<and> (template_name json_parse fs
             (path_join [tempDir, ''packages'', path_basename (ws_path workspace)]) \<noteq> Some (JStr n)
           \<and> template_name json_parse fs
               (path_join [tempDir, ''apps'', path_basename (ws_path workspace)]) \<noteq> Some (JStr n) \<longrightarrow>
           findMatchingTemplateWorkspace json_parse fs workspace tempDir = None)"
proof -
  let ?b = "path_basename (ws_path workspace)"
  have b: "?b \<noteq> []" "?b \<noteq> ''.''" "?b \<noteq> ''..''" "CHR ''/'' \<notin> set ?b"
    using assms(2) basename_no_slash by auto
  have bn: "path_basename (path_join [tempDir, ''packages'', ?b]) = ?b"
    "path_basename (path_join [tempDir, ''apps'', ?b]) = ?b"
    using basename_of_join[OF b] by simp_all
  show ?thesis
    unfolding find_matching_string_name[OF assms(1)] Let_def using bn by auto
qed

theorem template_match_needs_same_basename_witness:
  "findMatchingTemplateWorkspace
       (parse_only ''U'' (JObj [(''name'', JStr ''utils-pkg'')]))
       \<lparr>files = [''/tmp/t/apps/utils/package.json'' \<mapsto> ''U''], dirs = Map.empty\<rparr>
       \<lparr>ws_path = ''/proj/packages/utils'', packageName = JStr ''utils-pkg''\<rparr>
       ''/tmp/t'' = Some ''/tmp/t/apps/utils''"
proof -
  let ?parse = "parse_only ''U'' (JObj [(''name'', JStr ''utils-pkg'')])"
  let ?fs = "\<lparr>files = [''/tmp/t/apps/utils/package.json'' \<mapsto> ''U''], dirs = Map.empty\<rparr>"
  let ?w = "\<lparr>ws_path = ''/proj/packages/utils'', packageName = JStr ''utils-pkg''\<rparr>"
  have h: "packageName ?w = JStr ''utils-pkg''" "path_basename (ws_path ?w) \<notin> {[], ''.'', ''..''}"
    by (simp_all add: path_basename_def)
  have e: "path_basename (ws_path ?w) = ''utils''"
    "path_join [''/tmp/t'', ''packages'', ''utils''] = ''/tmp/t/packages/utils''"
    "path_join [''/tmp/t'', ''apps'', ''utils''] = ''/tmp/t/apps/utils''"
    by (simp_all add: path_basename_def path_join_def path_normalize_def Let_def)
  have t: "template_name ?parse ?fs ''/tmp/t/packages/utils'' \<noteq> Some (JStr ''utils-pkg'')"
    "template_name ?parse ?fs ''/tmp/t/apps/utils'' = Some (JStr ''utils-pkg'')"
    by (simp_all add: template_name_def getWorkspaceInfo_def path_join_def path_normalize_def
          existsSync_def readFile_def js_get_def Let_def parse_only_def)
  from template_match_needs_same_basename[OF h, of ?parse ?fs "''/tmp/t''"] t
  show ?thesis unfolding e by blast
qed

text \<open>
  The claim as stated fails: the template workspace \<^verbatim>\<open>packages/utils\<close> has the
  manifest name of the project workspace \<^verbatim>\<open>packages/my-utils\<close>, the basenames
  differ, and the resolution by name returns nothing.
\<close>

theorem template_match_needs_same_basename_counterexample:
  "template_name
     (parse_only ''U'' (JObj [(''name'', JStr ''utils-pkg'')]))
     \<lparr>files = [''/tmp/t/packages/utils/package.json'' \<mapsto> ''U''], dirs = Map.empty\<rparr>
     ''/tmp/t/packages/utils'' = Some (JStr ''utils-pkg'')
   \<and> path_basename ''/proj/packages/my-utils'' \<noteq> path_basename ''/tmp/t/packages/utils''
   \<and> findMatchingTemplateWorkspace
       (parse_only ''U'' (JObj [(''name'', JStr ''utils-pkg'')]))
       \<lparr>files = [''/tmp/t/packages/utils/package.json'' \<mapsto> ''U''], dirs = Map.empty\<rparr>
       \<lparr>ws_path = ''/proj/packages/my-utils'', packageName = JStr ''utils-pkg''\<rparr>
       ''/tmp/t'' = None"
  by (simp add: template_name_def findMatchingTemplateWorkspace_def getWorkspaceInfo_def
        path_basename_def path_join_def path_normalize_def existsSync_def readFile_def
        js_get_def Let_def parse_only_def)

section \<open>A run that finds no changes\<close>

text \<open>
  Claim C1 says that a run of the update whose set of changes is empty writes
  nothing, so that every file of the project, the root manifest included, is as
  it was. The code does otherwise. \<^verbatim>\<open>updateProject\<close> replaces \<^verbatim>\<open>whare.version\<close> in
  the root manifest by a placeholder before it asks for the changes (its comment
  calls the replacement temporary), and the return on an empty set of changes
  comes before the step that turns the placeholder into the new version. In the
  run below the template has not moved (tracked and head revision are both
  \<^verbatim>\<open>abc\<close>) and the manifest is the text \<^verbatim>\<open>JSON.stringify\<close> writes for
  \<^verbatim>\<open>{"name": "p", "whare": {"version": "abc"}}\<close>: the run returns, logs that
  there are no changes, and leaves the manifest
  \<^verbatim>\<open>{"name": "p", "whare": {"whareVersionPlaceholderDONOTUSE": "<abc>"}}\<close>, which
  differs from the manifest before the run and has no tracked revision.
\<close>

theorem updateProject_no_changes_leaves_placeholder:
  "fst (updateProject
          (parse_only
             (the (json_stringify_indent2
                     (JObj [(''name'', JStr ''p''), (''whare'', JObj [(''version'', JStr ''abc'')])])))
             (JObj [(''name'', JStr ''p''), (''whare'', JObj [(''version'', JStr ''abc'')])]))
          \<lparr>head_revision = Inr ''abc'', temp_dir = ''/tmp/whare-template-1'',
           clone = clone_files [(''/tmp/whare-template-1/README.md'', ''template'')],
           repo_diffs = Inr []\<rparr>
          ''/proj'' ''abc'' \<lparr>verbose = False, logs = [], console = []\<rparr> False
          \<lparr>files = [''/proj/package.json'' \<mapsto>
                      the (json_stringify_indent2
                             (JObj [(''name'', JStr ''p''), (''whare'', JObj [(''version'', JStr ''abc'')])]))],
           dirs = [''/'' \<mapsto> [''proj'', ''tmp''], ''/proj'' \<mapsto> [], ''/tmp'' \<mapsto> []]\<rparr>)
     = Returned
   \<and> logs (snd (snd (updateProject
          (parse_only
             (the (json_stringify_indent2
                     (JObj [(''name'', JStr ''p''), (''whare'', JObj [(''version'', JStr ''abc'')])])))
             (JObj [(''name'', JStr ''p''), (''whare'', JObj [(''version'', JStr ''abc'')])]))
          \<lparr>head_revision = Inr ''abc'', temp_dir = ''/tmp/whare-template-1'',
           clone = clone_files [(''/tmp/whare-template-1/README.md'', ''template'')],
           repo_diffs = Inr []\<rparr>
          ''/proj'' ''abc'' \<lparr>verbose = False, logs = [], console = []\<rparr> False
          \<lparr>files = [''/proj/package.json'' \<mapsto>
                      the (json_stringify_indent2
                             (JObj [(''name'', JStr ''p''), (''whare'', JObj [(''version'', JStr ''abc'')])]))],
           dirs = [''/'' \<mapsto> [''proj'', ''tmp''], ''/proj'' \<mapsto> [], ''/tmp'' \<mapsto> []]\<rparr>)))
     = [''No changes found in template'']
   \<and> files (fst (snd (updateProject
          (parse_only
             (the (json_stringify_indent2
                     (JObj [(''name'', JStr ''p''), (''whare'', JObj [(''version'', JStr ''abc'')])])))
             (JObj [(''name'', JStr ''p''), (''whare'', JObj [(''version'', JStr ''abc'')])]))
          \<lparr>head_revision = Inr ''abc'', temp_dir = ''/tmp/whare-template-1'',
           clone = clone_files [(''/tmp/whare-template-1/README.md'', ''template'')],
           repo_diffs = Inr []\<rparr>
          ''/proj'' ''abc'' \<lparr>verbose = False, logs = [], console = []\<rparr> False
          \<lparr>files = [''/proj/package.json'' \<mapsto>
                      the (json_stringify_indent2
                             (JObj [(''name'', JStr ''p''), (''whare'', JObj [(''version'', JStr ''abc'')])]))],
           dirs = [''/'' \<mapsto> [''proj'', ''tmp''], ''/proj'' \<mapsto> [], ''/tmp'' \<mapsto> []]\<rparr>)))
       ''/proj/package.json''
     = json_stringify_indent2
         (JObj [(''name'', JStr ''p''),
                (''whare'', JObj [(''whareVersionPlaceholderDONOTUSE'', JStr ''<abc>'')])])
   \<and> json_stringify_indent2
         (JObj [(''name'', JStr ''p''),
                (''whare'', JObj [(''whareVersionPlaceholderDONOTUSE'', JStr ''<abc>'')])])
     \<noteq> json_stringify_indent2
         (JObj [(''name'', JStr ''p''), (''whare'', JObj [(''version'', JStr ''abc'')])])"
  by (simp add: updateProject_def path_join_def path_normalize_def Let_def readFile_def js_get_def
     placeholder_manifest_def define_own_def has_own_def js_delete_def array_index_nondigit
     writeFile_def ignored_workspaces_def update_with_diffs_def parse_only_def clone_files_def
     json_stringify_indent2_def quoteJSONString_def quote_char_def char_defs log_def
     object_prototype_get_def object_prototype_functions_def mkdir_recursive_def)

section \<open>Rendering one conflict\<close>

lemma str_includes_here: "str_includes (sub @ b) sub"
proof (cases "sub @ b")
  case Nil
  then show ?thesis by simp
next
  case (Cons a list)
  then have "starts_with (a # list) sub" using starts_with_append[of sub b] by simp
  then show ?thesis using Cons by simp
qed

lemma str_includes_intro: "str_includes (a @ sub @ b) sub"
proof (induction a)
  case Nil
  then show ?case using str_includes_here by simp
next
  case (Cons c a)
  then show ?case by simp
qed

lemma trim_line:
  assumes "list_all (\<lambda>c. c = CHR '' '') ind" "x \<noteq> []" "\<not> is_ws (hd x)" "\<not> is_ws (last x)"
  shows "trim (ind @ x) = x"
proof -
  have "dropWhile is_ws ind = []" using assms(1) by (induction ind) (auto simp: is_ws_def)
  then have 1: "dropWhile is_ws (ind @ x) = x"
    using assms(2,3) by (cases x) (auto simp: dropWhile_append)
  have "dropWhile is_ws (rev x) = rev x"
    using assms(2,4) by (cases "rev x") (auto simp: hd_rev[symmetric])
  with 1 show ?thesis by (simp add: trim_def)
qed

lemma quote_char_nonempty: "quote_char c \<noteq> [] \<and> hd (quote_char c) \<noteq> dq"
  by (auto simp: quote_char_def char_defs)

lemma hex_no_break:
  "n < 16 \<Longrightarrow> ''0123456789abcdef'' ! n \<noteq> lf \<and> ''0123456789abcdef'' ! n \<noteq> cr"
proof -
  assume "n < 16"
  then have "''0123456789abcdef'' ! n \<in> set ''0123456789abcdef''" by (intro nth_mem) simp
  then show ?thesis by (auto simp: char_defs)
qed

lemma quote_char_no_break: "lf \<notin> set (quote_char c) \<and> cr \<notin> set (quote_char c)"
proof (cases "(of_char c :: nat) < 32")
  case True
  then have "of_char c div 16 < (16::nat)" "of_char c mod 16 < (16::nat)" by auto
  from hex_no_break[OF this(1)] hex_no_break[OF this(2)]
  show ?thesis unfolding quote_char_def by (auto simp: char_defs)
next
  case False
  then have "c \<noteq> lf" "c \<noteq> cr" by (auto simp: char_defs)
  with False show ?thesis unfolding quote_char_def by (simp add: char_defs)
qed

lemma escaped_nonempty:
  "key \<noteq> [] \<Longrightarrow> concat (map quote_char key) \<noteq> [] \<and> hd (concat (map quote_char key)) \<noteq> dq"
  using quote_char_nonempty by (cases key) auto

lemma quoted_no_break: "lf \<notin> set (quoteJSONString s) \<and> cr \<notin> set (quoteJSONString s)"
  using quote_char_no_break by (auto simp: quoteJSONString_def char_defs)

lemma quoted_marker:
  "quoteJSONString (''curr::'' @ key) = dq # ''curr::'' @ concat (map quote_char key) @ [dq]"
  "quoteJSONString (''tmpl::'' @ key) = dq # ''tmpl::'' @ concat (map quote_char key) @ [dq]"
  "quoteJSONString (''conf-start::'' @ key) = dq # ''conf-start::'' @ concat (map quote_char key) @ [dq]"
  "quoteJSONString (''conf-mid::'' @ key) = dq # ''conf-mid::'' @ concat (map quote_char key) @ [dq]"
  "quoteJSONString (''conf-end::'' @ key) = dq # ''conf-end::'' @ concat (map quote_char key) @ [dq]"
  by (simp_all add: quoteJSONString_def quote_char_def char_defs)

lemma replace_marker_skip_indent:
  "list_all (\<lambda>c. c = CHR '' '') ind \<Longrightarrow> replace_marker pfx (ind @ x) = ind @ replace_marker pfx x"
  by (induction ind) (auto simp: marker_match_def dq_def)

lemma replace_marker_at_key:
  assumes "e \<noteq> []" "hd e \<noteq> dq"
  shows "replace_marker pfx (dq # pfx @ e @ dq # rest) = dq # e @ dq # rest"
proof -
  have sw: "starts_with (dq # pfx @ e @ dq # rest) (dq # pfx)"
    using starts_with_append[of "dq # pfx" "e @ dq # rest"] by simp
  have run: "takeWhile (\<lambda>c. c \<noteq> dq) (e @ dq # rest) \<noteq> []"
    using assms by (cases e) auto
  have "takeWhile (\<lambda>c. c \<noteq> dq) (e @ dq # rest) \<noteq> e @ dq # rest"
    by (simp add: takeWhile_eq_all_conv)
  moreover have "length (takeWhile (\<lambda>c. c \<noteq> dq) (e @ dq # rest)) \<le> length (e @ dq # rest)"
    by (rule length_takeWhile_le)
  ultimately have "length (takeWhile (\<lambda>c. c \<noteq> dq) (e @ dq # rest)) < length (e @ dq # rest)"
    by (metis le_neq_implies_less takeWhile_eq_take take_all_iff order_refl)
  with sw run have "marker_match pfx (dq # pfx @ e @ dq # rest)"
    by (simp add: marker_match_def Let_def)
  then show ?thesis by simp
qed

lemma remove_last_comma_end:
  "lf \<notin> set s \<Longrightarrow> cr \<notin> set s \<Longrightarrow> remove_last_comma (s @ '','') = s"
proof (induction s)
  case Nil
  then show ?case by simp
next
  case (Cons c s)
  have "takeWhile (\<lambda>x. x \<noteq> lf \<and> x \<noteq> cr) (s @ '','') = s @ '',''"
    using Cons.prems by (intro takeWhile_eq_all_conv[THEN iffD2]) (auto simp: char_defs)
  then show ?case using Cons by simp
qed

lemma transform_pass:
  "list_all (\<lambda>l. \<not> delimiter_line l) pre \<Longrightarrow>
   transform_lines False (pre @ rest) = pre @ transform_lines False rest"
  by (induction pre) (auto simp: delimiter_line_def Let_def)

lemma transform_pass_all:
  "list_all (\<lambda>l. \<not> delimiter_line l) post \<Longrightarrow> transform_lines False post = post"
  using transform_pass[of post "[]"] by simp

lemma split_lines_nonempty: "split_lines s \<noteq> []"
  by (induction s) (auto split: list.splits)

lemma split_lines_plain: "lf \<notin> set l \<Longrightarrow> split_lines l = [l]"
  by (induction l) auto

lemma split_lines_append: "split_lines (x @ lf # y) = split_lines x @ split_lines y"
proof (induction x)
  case Nil
  then show ?case by simp
next
  case (Cons c x)
  then show ?case using split_lines_nonempty[of x] by (cases "split_lines x") auto
qed

lemma split_join_lines:
  "ls \<noteq> [] \<Longrightarrow> list_all (\<lambda>l. lf \<notin> set l) ls \<Longrightarrow> split_lines (join [lf] ls) = ls"
proof (induction "[lf]" ls rule: join.induct)
  case 1
  then show ?case by simp
next
  case (2 x)
  then show ?case by (simp add: split_lines_plain)
next
  case (3 x y ys)
  then show ?case
    using split_lines_append[of x "join [lf] (y # ys)"] by (simp add: split_lines_plain)
qed

lemma skip_line:
  assumes "list_all (\<lambda>c. c = CHR '' '') ind" "\<not> is_ws (last x)"
    "x = dq # p @ r" "p \<in> {''conf-end'', ''conf-mid'', ''tmpl::'', ''curr::''}"
  shows "findNextNonConflictLine ((ind @ x) # rest) = findNextNonConflictLine rest"
proof -
  have "trim (ind @ x) = x"
    using assms by (intro trim_line) (auto simp: is_ws_def char_defs)
  moreover have "starts_with x (dq # p)" using assms(3) starts_with_append[of "dq # p" r] by simp
  ultimately show ?thesis using assms(4) by (auto simp: Let_def)
qed

section \<open>The lines of a serialised document\<close>

text \<open>
  How \<^verbatim>\<open>JSON.stringify(value, null, 2)\<close> lays a document out in lines, and what
  \<^verbatim>\<open>transformToGitConflicts\<close> does to the first lines of its top-level members.
\<close>

lemma starts_with_prefix: "starts_with l (p @ q) \<Longrightarrow> starts_with l p"
  by (auto simp: starts_with_iff)

lemma starts_with_extend: "starts_with l p \<Longrightarrow> starts_with (l @ b) p"
  by (auto simp: starts_with_iff)

lemma deep_line_weaken: "deep_line (ind @ ''  '') l \<Longrightarrow> deep_line ind l"
proof -
  assume "deep_line (ind @ ''  '') l"
  then have "starts_with l ((ind @ '' '') @ '' '') \<or> starts_with l ((ind @ '' '') @ '' }'')
      \<or> starts_with l ((ind @ '' '') @ '' ]'')"
    unfolding deep_line_def
    by (auto simp: starts_with_iff)
  then show ?thesis unfolding deep_line_def using starts_with_prefix by blast
qed

lemma deep_line_extend: "deep_line ind l \<Longrightarrow> deep_line ind (l @ b)"
  unfolding deep_line_def using starts_with_extend by blast

lemma split_lines_prefix:
  "lf \<notin> set a \<Longrightarrow> split_lines (a @ p) = (a @ hd (split_lines p)) # tl (split_lines p)"
proof (induction a)
  case Nil
  then show ?case using split_lines_nonempty[of p] by simp
next
  case (Cons c a)
  then show ?case by auto
qed

lemma split_lines_suffix:
  "lf \<notin> set b \<Longrightarrow> split_lines (p @ b) = butlast (split_lines p) @ [last (split_lines p) @ b]"
proof (induction p)
  case Nil
  then show ?case by (simp add: split_lines_plain)
next
  case (Cons c p)
  then show ?case
    using split_lines_nonempty[of p] split_lines_nonempty[of "p @ b"]
    by (cases "split_lines p") (auto split: list.splits)
qed

lemma tail_lines_suffix:
  assumes "lf \<notin> set b" "list_all (deep_line ind) (tl (split_lines p))"
  shows "list_all (deep_line ind) (tl (split_lines (p @ b)))"
proof (cases "tl (split_lines p)")
  case Nil
  then have "split_lines p = [hd (split_lines p)]"
    using split_lines_nonempty[of p] by (cases "split_lines p") auto
  then have "butlast (split_lines p) = []" by (metis butlast.simps(2))
  then show ?thesis using split_lines_suffix[OF assms(1), of p] by simp
next
  case (Cons x xs)
  then obtain h where sp: "split_lines p = h # x # xs" by (cases "split_lines p") auto
  have "split_lines (p @ b) = h # butlast (x # xs) @ [last (x # xs) @ b]"
    using split_lines_suffix[OF assms(1), of p] sp by simp
  moreover have "list_all (deep_line ind) (butlast (x # xs))"
    using assms(2) sp by (auto simp: list_all_iff dest: in_set_butlastD)
  moreover have "deep_line ind (last (x # xs))"
    using assms(2) sp by (simp add: list_all_iff)
  ultimately show ?thesis using deep_line_extend by simp
qed

text \<open>The lines of the members of an object or array written with a gap.\<close>

lemma member_lines:
  assumes "partial \<noteq> []" "lf \<notin> set ind"
    "\<forall>p \<in> set partial. list_all (deep_line (ind @ ''  '')) (tl (split_lines p))"
  shows "list_all (deep_line ind)
           (split_lines ((ind @ ''  '') @ join ('','' @ [lf] @ ind @ ''  '') partial))"
  using assms
proof (induction "'','' @ [lf] @ ind @ ''  ''" partial rule: join.induct)
  case 1
  then show ?case by simp
next
  case (2 x)
  have nl: "lf \<notin> set (ind @ ''  '')" using \<open>lf \<notin> set ind\<close> by (simp add: lf_def)
  have "deep_line ind ((ind @ ''  '') @ hd (split_lines x))"
    by (simp add: deep_line_def starts_with_iff)
  moreover have "list_all (deep_line ind) (tl (split_lines x))"
    using 2 deep_line_weaken by (auto simp: list_all_iff)
  ultimately show ?case using split_lines_prefix[OF nl, of x] by simp
next
  case (3 x y ys)
  have nl: "lf \<notin> set (ind @ ''  '')" using \<open>lf \<notin> set ind\<close> by (simp add: lf_def)
  have eq: "(ind @ ''  '') @ join ('','' @ [lf] @ ind @ ''  '') (x # y # ys)
        = ((ind @ ''  '') @ x @ '','') @ lf # ((ind @ ''  '') @ join ('','' @ [lf] @ ind @ ''  '') (y # ys))"
    by simp
  have "list_all (deep_line (ind @ ''  '')) (tl (split_lines (x @ '','')))"
    using 3(4) by (intro tail_lines_suffix) (auto simp: lf_def)
  then have "list_all (deep_line ind) (tl (split_lines (x @ '','')))"
    using deep_line_weaken by (auto simp: list_all_iff)
  moreover have "deep_line ind ((ind @ ''  '') @ hd (split_lines (x @ '','')))"
    by (simp add: deep_line_def starts_with_iff)
  ultimately have first: "list_all (deep_line ind) (split_lines ((ind @ ''  '') @ x @ '',''))"
    using split_lines_prefix[OF nl, of "x @ '',''"] by simp
  have rest: "list_all (deep_line ind)
      (split_lines ((ind @ ''  '') @ join ('','' @ [lf] @ ind @ ''  '') (y # ys)))"
    using 3 by simp
  show ?case unfolding eq split_lines_append using first rest by simp
qed


lemma digit_nth10: "n < 10 \<Longrightarrow> ''0123456789'' ! n \<in> set ''0123456789''"
  by (rule nth_mem) simp

lemma to_dec_digits: "set (to_dec n) \<subseteq> set ''0123456789''"
proof (induction n rule: to_dec.induct)
  case (1 n)
  show ?case
  proof (cases "n < 10")
    case True
    then show ?thesis using digit_nth10[of n] by (subst to_dec.simps) simp
  next
    case False
    have "n mod 10 < 10" by simp
    from digit_nth10[OF this] False "1.IH" show ?thesis by (subst to_dec.simps) auto
  qed
qed

lemma number_no_break: "lf \<notin> set (number_to_string n)"
  using to_dec_digits[of "nat n"] to_dec_digits[of "nat (- n)"]
  by (auto simp: number_to_string_def lf_def)

lemma tail_lines_prefix:
  "lf \<notin> set a \<Longrightarrow> tl (split_lines (a @ p)) = tl (split_lines p)"
  by (simp add: split_lines_prefix)

lemma wrapped_lines:
  assumes "partial \<noteq> []" "lf \<notin> set ind" "lf \<notin> set opener" "closer = ''}'' \<or> closer = '']''"
    "\<forall>p \<in> set partial. list_all (deep_line (ind @ ''  '')) (tl (split_lines p))"
  shows "list_all (deep_line ind)
           (tl (split_lines (opener @ [lf] @ (ind @ ''  '') @ join ('','' @ [lf] @ ind @ ''  '') partial
                             @ [lf] @ ind @ closer)))"
proof -
  let ?body = "(ind @ ''  '') @ join ('','' @ [lf] @ ind @ ''  '') partial"
  have "opener @ [lf] @ ?body @ [lf] @ ind @ closer = opener @ lf # (?body @ lf # (ind @ closer))"
    by simp
  then have "split_lines (opener @ [lf] @ ?body @ [lf] @ ind @ closer)
      = split_lines opener @ split_lines ?body @ split_lines (ind @ closer)"
    using split_lines_append[of opener "?body @ lf # (ind @ closer)"]
      split_lines_append[of ?body "ind @ closer"] by simp
  moreover have "split_lines opener = [opener]" using assms(3) by (rule split_lines_plain)
  moreover have "split_lines (ind @ closer) = [ind @ closer]"
    using assms(2,4) by (intro split_lines_plain) (auto simp: lf_def)
  moreover have "deep_line ind (ind @ closer)"
    using assms(4) by (auto simp: deep_line_def starts_with_iff)
  moreover have "list_all (deep_line ind) (split_lines ?body)"
    using member_lines[OF assms(1,2,5)] .
  ultimately show ?thesis by simp
qed

lemma object_partial:
  "concat (map (\<lambda>(k, v). case serializeJSONProperty ''  '' ind' v of
                       None \<Rightarrow> []
                     | Some s \<Rightarrow> [quoteJSONString k @ '':'' @ (if ''  '' = [] then [] else '' '') @ s]) ps)
   = concat (map (\<lambda>(k, v). case serializeJSONProperty ''  '' ind' v of
                       None \<Rightarrow> []
                     | Some s \<Rightarrow> [quoteJSONString k @ '':'' @ '' '' @ s]) ps)"
  by (simp cong: option.case_cong)

lemma value_lines:
  "serializeJSONProperty ''  '' ind v = Some t \<Longrightarrow> lf \<notin> set ind \<Longrightarrow>
   list_all (deep_line ind) (tl (split_lines t))"
proof (induction v arbitrary: ind t)
  case JUndefined
  then show ?case by simp
next
  case JNull
  then show ?case by (auto simp: lf_def)
next
  case (JBool b)
  then show ?case by (auto simp: lf_def)
next
  case (JNum n)
  then show ?case using number_no_break[of n] by (auto simp: split_lines_plain)
next
  case (JStr s)
  then show ?case using quoted_no_break[of s] by (auto simp: split_lines_plain)
next
  case (JArr xs)
  let ?partial = "map (\<lambda>x. case serializeJSONProperty ''  '' (ind @ ''  '') x of
                                 None \<Rightarrow> ''null'' | Some s \<Rightarrow> s) xs"
  show ?case
  proof (cases "xs = []")
    case True
    with JArr.prems show ?thesis by (auto simp: lf_def)
  next
    case False
    have nl: "lf \<notin> set (ind @ ''  '')" using JArr.prems(2) by (simp add: lf_def)
    have parts: "\<forall>p \<in> set ?partial. list_all (deep_line (ind @ ''  '')) (tl (split_lines p))"
    proof
      fix p assume "p \<in> set ?partial"
      then obtain x where x: "x \<in> set xs"
        and p: "p = (case serializeJSONProperty ''  '' (ind @ ''  '') x of None \<Rightarrow> ''null'' | Some s \<Rightarrow> s)"
        by auto
      show "list_all (deep_line (ind @ ''  '')) (tl (split_lines p))"
      proof (cases "serializeJSONProperty ''  '' (ind @ ''  '') x")
        case None
        with p show ?thesis by (simp add: lf_def)
      next
        case (Some s)
        with p JArr.IH[OF x Some nl] show ?thesis by simp
      qed
    qed
    have "t = ''['' @ [lf] @ (ind @ ''  '') @ join ('','' @ [lf] @ ind @ ''  '') ?partial @ [lf] @ ind @ '']''"
      using JArr.prems(1) False by (simp add: Let_def)
    then show ?thesis
      using wrapped_lines[of ?partial ind "''[''" "'']''", OF _ JArr.prems(2) _ _ parts] False
      by (simp add: lf_def)
  qed
next
  case (JObj ps)
  let ?partial = "concat (map (\<lambda>(k, v). case serializeJSONProperty ''  '' (ind @ ''  '') v of
                       None \<Rightarrow> []
                     | Some s \<Rightarrow> [quoteJSONString k @ '':'' @ '' '' @ s]) ps)"
  show ?case
  proof (cases "?partial = []")
    case True
    with JObj.prems have "t = ''{}''" by (simp add: Let_def object_partial del: concat_eq_Nil_conv)
    then show ?thesis by (simp add: lf_def)
  next
    case False
    have nl: "lf \<notin> set (ind @ ''  '')" using JObj.prems(2) by (simp add: lf_def)
    have parts: "\<forall>p \<in> set ?partial. list_all (deep_line (ind @ ''  '')) (tl (split_lines p))"
    proof
      fix p assume "p \<in> set ?partial"
      then obtain k v s where kv: "(k, v) \<in> set ps"
        and s: "serializeJSONProperty ''  '' (ind @ ''  '') v = Some s"
        and p: "p = quoteJSONString k @ '':'' @ '' '' @ s"
        by (fastforce split: option.splits)
      have "v \<in> Basic_BNFs.snds (k, v)" by simp
      from JObj.IH[OF kv this s nl]
      have "list_all (deep_line (ind @ ''  '')) (tl (split_lines s))" .
      moreover have "lf \<notin> set (quoteJSONString k @ '':'' @ '' '')"
        using quoted_no_break[of k] by (simp add: lf_def)
      ultimately show "list_all (deep_line (ind @ ''  '')) (tl (split_lines p))"
        using tail_lines_prefix[of "quoteJSONString k @ '':'' @ '' ''" s] p by simp
    qed
    have "t = ''{'' @ [lf] @ (ind @ ''  '') @ join ('','' @ [lf] @ ind @ ''  '') ?partial @ [lf] @ ind @ ''}''"
      using JObj.prems(1) False by (simp add: Let_def object_partial del: concat_eq_Nil_conv)
    then show ?thesis
      using wrapped_lines[of ?partial ind "''{''" "''}''", OF False JObj.prems(2) _ _ parts]
      by (simp add: lf_def)
  qed
next
  case (JFun f)
  then show ?case by simp
qed


lemma trim_first:
  assumes "list_all (\<lambda>c. c = CHR '' '') ind" "\<not> is_ws c"
  shows "\<exists>r. trim (ind @ c # rest) = c # r"
proof -
  have "dropWhile is_ws ind = []" using assms(1) by (induction ind) (auto simp: is_ws_def)
  then have "dropWhile is_ws (ind @ c # rest) = c # rest"
    using assms(2) by (simp add: dropWhile_append)
  moreover have "dropWhile is_ws (rev rest @ [c]) = dropWhile is_ws (rev rest) @ [c]"
    using assms(2) by (simp add: dropWhile_append3)
  ultimately show ?thesis by (simp add: trim_def)
qed

lemma deep_line_inner:
  assumes "deep_line ''  '' l"
  shows "\<not> top_level_line l \<and> inner_line l"
proof -
  consider r where "l = ''   '' @ r" | r where "l = ''  '' @ CHR ''}'' # r"
    | r where "l = ''  '' @ CHR '']'' # r"
    using assms by (auto simp: deep_line_def starts_with_iff)
  then show ?thesis
  proof cases
    case 1
    then show ?thesis by (simp add: top_level_line_def inner_line_def dq_def)
  next
    case 2
    from trim_first[of "''  ''" "CHR ''}''" r] obtain x where "trim l = CHR ''}'' # x"
      using 2 by (auto simp: is_ws_def lf_def cr_def)
    with 2 show ?thesis by (simp add: top_level_line_def inner_line_def dq_def)
  next
    case 3
    from trim_first[of "''  ''" "CHR '']''" r] obtain x where "trim l = CHR '']'' # x"
      using 3 by (auto simp: is_ws_def lf_def cr_def)
    with 3 show ?thesis by (simp add: top_level_line_def inner_line_def dq_def)
  qed
qed

text \<open>
  The lines of one top-level member: the first starts with the quoted key, the
  others lie deeper.
\<close>

lemma member_chunk:
  assumes "list_all (deep_line ''  '') (tl (split_lines t))" "lf \<notin> set c"
  shows "\<exists>first rest. split_lines (''  '' @ (quoteJSONString k @ '': '' @ t) @ c) = first # rest
           \<and> member_line k first \<and> top_level_line first
           \<and> list_all (\<lambda>l. \<not> top_level_line l \<and> inner_line l) rest"
proof -
  let ?a = "''  '' @ quoteJSONString k @ '': ''"
  have nl: "lf \<notin> set ?a" using quoted_no_break[of k] by (simp add: lf_def)
  have eq: "''  '' @ (quoteJSONString k @ '': '' @ t) @ c = ?a @ (t @ c)" by simp
  have sp: "split_lines (?a @ (t @ c)) = (?a @ hd (split_lines (t @ c))) # tl (split_lines (t @ c))"
    using split_lines_prefix[OF nl] .
  have "list_all (deep_line ''  '') (tl (split_lines (t @ c)))"
    using assms by (intro tail_lines_suffix)
  then have "list_all (\<lambda>l. \<not> top_level_line l \<and> inner_line l) (tl (split_lines (t @ c)))"
    using deep_line_inner by (auto simp: list_all_iff)
  moreover have "member_line k (?a @ hd (split_lines (t @ c)))"
    unfolding member_line_def using starts_with_append[of ?a] by simp
  moreover have "top_level_line (?a @ hd (split_lines (t @ c)))"
    by (simp add: top_level_line_def quoteJSONString_def)
  ultimately show ?thesis unfolding eq sp by blast
qed

lemma member_chunks:
  assumes "ms \<noteq> []" "\<forall>m \<in> set ms. list_all (deep_line ''  '') (tl (split_lines (snd m)))"
  shows "list_all (\<lambda>l. top_level_line l \<or> inner_line l)
           (split_lines (''  '' @ join ('','' @ [lf] @ ''  '')
                                   (map (\<lambda>(k, t). quoteJSONString k @ '': '' @ t) ms)))
         \<and> list_all2 member_line (map fst ms)
             (filter top_level_line
               (split_lines (''  '' @ join ('','' @ [lf] @ ''  '')
                                       (map (\<lambda>(k, t). quoteJSONString k @ '': '' @ t) ms))))"
  using assms
proof (induction ms rule: induct_list012)
  case 1
  then show ?case by simp
next
  case (2 m)
  obtain k t where m: "m = (k, t)" by (cases m)
  from 2 m have "list_all (deep_line ''  '') (tl (split_lines t))" by simp
  from member_chunk[OF this, of "[]" k] obtain first rest where
    "split_lines (''  '' @ (quoteJSONString k @ '': '' @ t)) = first # rest"
    "member_line k first" "top_level_line first"
    "list_all (\<lambda>l. \<not> top_level_line l \<and> inner_line l) rest"
    by auto
  moreover from this(4) have "filter top_level_line rest = []" "list_all (\<lambda>l. top_level_line l \<or> inner_line l) rest"
    by (auto simp: list_all_iff filter_empty_conv)
  ultimately show ?case using m by simp
next
  case (3 m m' ms)
  obtain k t where m: "m = (k, t)" by (cases m)
  let ?f = "\<lambda>(k, t). quoteJSONString k @ '': '' @ t"
  let ?sep = "'','' @ [lf] @ ''  ''"
  from 3 m have "list_all (deep_line ''  '') (tl (split_lines t))" by simp
  from member_chunk[OF this, of "'',''" k] obtain first rest where ch:
    "split_lines (''  '' @ (quoteJSONString k @ '': '' @ t) @ '','') = first # rest"
    "member_line k first" "top_level_line first"
    "list_all (\<lambda>l. \<not> top_level_line l \<and> inner_line l) rest"
    by (auto simp: lf_def)
  from ch(4) have rest: "filter top_level_line rest = []" "list_all (\<lambda>l. top_level_line l \<or> inner_line l) rest"
    by (auto simp: list_all_iff filter_empty_conv)
  have eq: "''  '' @ join ?sep (map ?f (m # m' # ms))
      = (''  '' @ (quoteJSONString k @ '': '' @ t) @ '','') @ lf # (''  '' @ join ?sep (map ?f (m' # ms)))"
    using m by simp
  have IH: "list_all (\<lambda>l. top_level_line l \<or> inner_line l) (split_lines (''  '' @ join ?sep (map ?f (m' # ms))))
     \<and> list_all2 member_line (map fst (m' # ms))
         (filter top_level_line (split_lines (''  '' @ join ?sep (map ?f (m' # ms)))))"
    using 3 by simp
  show ?case unfolding eq split_lines_append ch(1) using ch(2,3) rest IH m by simp
qed


lemma serialized_iff: "serializeJSONProperty gap ind v = None \<longleftrightarrow> \<not> serializable v"
  by (cases v) (simp_all add: Let_def)

lemma member_texts_keys: "map fst (member_texts ps) = map fst (written ps)"
proof (induction ps)
  case Nil
  then show ?case by (simp add: member_texts_def written_def)
next
  case (Cons p ps)
  obtain k v where p: "p = (k, v)" by (cases p)
  show ?case
  proof (cases "serializeJSONProperty ''  '' ''  '' v")
    case None
    then have "\<not> serializable v" using serialized_iff by blast
    with None Cons p show ?thesis by (simp add: member_texts_def written_def)
  next
    case (Some t)
    then have "serializable v" using serialized_iff[of "''  ''" "''  ''" v] by simp
    with Some Cons p show ?thesis by (simp add: member_texts_def written_def)
  qed
qed

lemma member_texts_deep:
  "\<forall>m \<in> set (member_texts ps). list_all (deep_line ''  '') (tl (split_lines (snd m)))"
proof
  fix m assume "m \<in> set (member_texts ps)"
  then obtain k v t where "serializeJSONProperty ''  '' ''  '' v = Some t" "m = (k, t)"
    unfolding member_texts_def by (fastforce split: option.splits)
  then show "list_all (deep_line ''  '') (tl (split_lines (snd m)))"
    using value_lines[of "''  ''" v t] by (simp add: lf_def)
qed

lemma member_texts_partial:
  "concat (map (\<lambda>(k, v). case serializeJSONProperty ''  '' ''  '' v of
                       None \<Rightarrow> []
                     | Some s \<Rightarrow> [quoteJSONString k @ '':'' @ '' '' @ s]) ps)
   = map (\<lambda>(k, t). quoteJSONString k @ '': '' @ t) (member_texts ps)"
  unfolding member_texts_def
  by (induction ps) (auto split: option.splits)

lemma document_text:
  assumes "json_stringify_indent2 (JObj r) = Some s"
  shows "s = (if member_texts r = [] then ''{}''
              else ''{'' @ lf # (''  '' @ join ('','' @ [lf] @ ''  '')
                       (map (\<lambda>(k, t). quoteJSONString k @ '': '' @ t) (member_texts r))) @ lf # ''}'')"
proof -
  have p: "concat (map (\<lambda>(k, v). case serializeJSONProperty ''  '' ''  '' v of
                       None \<Rightarrow> []
                     | Some s \<Rightarrow> [quoteJSONString k @ '':'' @ (if ''  '' = [] then [] else '' '') @ s]) r)
      = map (\<lambda>(k, t). quoteJSONString k @ '': '' @ t) (member_texts r)"
    using object_partial[of "''  ''" r] member_texts_partial[of r] by simp
  from assms have "Some (if map (\<lambda>(k, t). quoteJSONString k @ '': '' @ t) (member_texts r) = [] then ''{}''
               else if ''  '' = [] then ''{'' @ join '','' (map (\<lambda>(k, t). quoteJSONString k @ '': '' @ t) (member_texts r)) @ ''}''
               else ''{'' @ [lf] @ ''  '' @ join ('','' @ [lf] @ ''  '') (map (\<lambda>(k, t). quoteJSONString k @ '': '' @ t) (member_texts r))
                    @ [lf] @ [] @ ''}'') = Some s"
    unfolding json_stringify_indent2_def serializeJSONProperty.simps Let_def append_Nil p .
  then show ?thesis by auto
qed

lemma document_lines:
  assumes "json_stringify_indent2 (JObj r) = Some s"
  shows "list_all (\<lambda>l. top_level_line l \<or> inner_line l) (split_lines s)
         \<and> list_all2 member_line (map fst (written r)) (filter top_level_line (split_lines s))"
proof (cases "member_texts r = []")
  case True
  then have "s = ''{}''" using document_text[OF assms] by simp
  moreover have "map fst (written r) = []" using member_texts_keys[of r] True by simp
  ultimately show ?thesis
    by (simp add: lf_def top_level_line_def inner_line_def trim_def is_ws_def dq_def)
next
  case False
  let ?body = "''  '' @ join ('','' @ [lf] @ ''  '')
                 (map (\<lambda>(k, t). quoteJSONString k @ '': '' @ t) (member_texts r))"
  have "s = ''{'' @ lf # (?body @ lf # ''}'')" using document_text[OF assms] False by simp
  then have "split_lines s = split_lines ''{'' @ split_lines ?body @ split_lines ''}''"
    using split_lines_append[of "''{''" "?body @ lf # ''}''"] split_lines_append[of ?body "''}''"]
    by simp
  then have sp: "split_lines s = ''{'' # split_lines ?body @ [''}'']" by (simp add: lf_def)
  have edge: "\<not> top_level_line ''{''" "\<not> top_level_line ''}''" "inner_line ''{''" "inner_line ''}''"
    by (simp_all add: top_level_line_def inner_line_def trim_def is_ws_def dq_def)
  from member_chunks[OF False member_texts_deep]
  show ?thesis unfolding sp using edge member_texts_keys[of r] by simp
qed


lemma processed_not_top:
  assumes "starts_with l ''   ''"
  shows "\<not> top_level_line (remove_last_comma (replace_marker pfx l) @ sfx)"
proof -
  from assms obtain y where "l = ''   '' @ y" by (auto simp: starts_with_iff)
  then have "replace_marker pfx l = ''   '' @ replace_marker pfx y"
    using replace_marker_skip_indent[of "''   ''" pfx y] by simp
  then show ?thesis by (simp add: top_level_line_def dq_def)
qed

lemma transform_inner_line:
  assumes "\<not> top_level_line l" "inner_line l"
  shows "\<exists>out b'. transform_lines b (l # ls) = out # transform_lines b' ls \<and> \<not> top_level_line out"
proof -
  have marked: "starts_with l ''   ''" if "starts_with (trim l) (dq # pfx)" for pfx
  proof -
    from that have "starts_with (trim l) ([dq] @ pfx)" by simp
    then have "starts_with (trim l) [dq]" by (rule starts_with_prefix)
    with assms(2) show ?thesis by (simp add: inner_line_def)
  qed
  let ?start = "str_includes l (dq # ''conf-start::'')"
  let ?mid = "str_includes l (dq # ''conf-mid::'')"
  let ?end = "str_includes l (dq # ''conf-end::'')"
  let ?tmpl = "b \<and> starts_with (trim l) (dq # ''tmpl::'')"
  let ?curr = "b \<and> starts_with (trim l) (dq # ''curr::'')"
  consider (start) ?start | (mid) "\<not> ?start" ?mid | (fin) "\<not> ?start" "\<not> ?mid" ?end
    | (tmpl) "\<not> ?start" "\<not> ?mid" "\<not> ?end" ?tmpl
    | (curr) "\<not> ?start" "\<not> ?mid" "\<not> ?end" "\<not> ?tmpl" ?curr
    | (plain) "\<not> ?start" "\<not> ?mid" "\<not> ?end" "\<not> ?tmpl" "\<not> ?curr"
    by blast
  then show ?thesis
  proof cases
    case start
    then have "transform_lines b (l # ls) = ''<<<<<<< Local Package'' # transform_lines True ls"
      by (simp add: Let_def)
    moreover have "\<not> top_level_line ''<<<<<<< Local Package''" by (simp add: top_level_line_def)
    ultimately show ?thesis by blast
  next
    case mid
    then have "transform_lines b (l # ls) = ''======='' # transform_lines b ls"
      by (simp add: Let_def)
    moreover have "\<not> top_level_line ''=======''" by (simp add: top_level_line_def)
    ultimately show ?thesis by blast
  next
    case fin
    then have "transform_lines b (l # ls) = ''>>>>>>> Template'' # transform_lines False ls"
      by (simp add: Let_def)
    moreover have "\<not> top_level_line ''>>>>>>> Template''" by (simp add: top_level_line_def)
    ultimately show ?thesis by blast
  next
    case tmpl
    then have "\<exists>sfx. transform_lines b (l # ls)
        = (remove_last_comma (replace_marker ''tmpl::'' l) @ sfx) # transform_lines b ls"
      by (simp add: Let_def)
    moreover have "\<not> top_level_line (remove_last_comma (replace_marker ''tmpl::'' l) @ sfx)" for sfx
      using processed_not_top[OF marked] tmpl by blast
    ultimately show ?thesis by metis
  next
    case curr
    then have "\<exists>sfx. transform_lines b (l # ls)
        = (remove_last_comma (replace_marker ''curr::'' l) @ sfx) # transform_lines b ls"
      by (simp add: Let_def)
    moreover have "\<not> top_level_line (remove_last_comma (replace_marker ''curr::'' l) @ sfx)" for sfx
      using processed_not_top[OF marked] curr by blast
    ultimately show ?thesis by metis
  next
    case plain
    then have "transform_lines b (l # ls) = l # transform_lines b ls"
      by (cases b) (simp_all add: Let_def)
    with assms(1) show ?thesis by blast
  qed
qed

lemma transform_keeps_top_level:
  "list_all (\<lambda>l. if top_level_line l then \<not> sentinel_line l else inner_line l) ls \<Longrightarrow>
   filter top_level_line (transform_lines b ls) = filter top_level_line ls"
proof (induction ls arbitrary: b)
  case Nil
  then show ?case by simp
next
  case (Cons l ls)
  have IH: "filter top_level_line (transform_lines b' ls) = filter top_level_line ls" for b'
    using Cons by simp
  show ?case
  proof (cases "top_level_line l")
    case True
    with Cons.prems have "\<not> sentinel_line l" by simp
    then have "transform_lines b (l # ls) = l # transform_lines b ls"
      by (simp add: sentinel_line_def delimiter_line_def Let_def)
    then show ?thesis using IH by simp
  next
    case False
    with Cons.prems have "inner_line l" by simp
    from transform_inner_line[OF False this, of b ls] obtain out b' where
      "transform_lines b (l # ls) = out # transform_lines b' ls" "\<not> top_level_line out"
      by blast
    then show ?thesis using False IH by simp
  qed
qed

lemma split_lines_no_lf: "list_all (\<lambda>l. lf \<notin> set l) (split_lines s)"
  by (induction s) (auto split: list.splits)

lemma replace_marker_no_lf: "lf \<notin> set l \<Longrightarrow> lf \<notin> set (replace_marker pfx l)"
proof (induction l)
  case Nil
  then show ?case by simp
next
  case (Cons c l)
  have "lf \<notin> set (drop (length pfx) l)" using Cons.prems by (auto dest: in_set_dropD)
  then show ?case using Cons by (auto simp: char_defs)
qed

lemma remove_last_comma_no_lf: "lf \<notin> set l \<Longrightarrow> lf \<notin> set (remove_last_comma l)"
  by (induction l) auto

lemma transform_no_lf:
  "list_all (\<lambda>l. lf \<notin> set l) ls \<Longrightarrow> list_all (\<lambda>l. lf \<notin> set l) (transform_lines b ls)"
proof (induction ls arbitrary: b)
  case Nil
  then show ?case by simp
next
  case (Cons l ls)
  then have "lf \<notin> set (remove_last_comma (replace_marker pfx l))" for pfx
    using replace_marker_no_lf remove_last_comma_no_lf by simp
  then show ?case using Cons by (simp add: Let_def lf_def)
qed

lemma transform_nonempty: "ls \<noteq> [] \<Longrightarrow> transform_lines b ls \<noteq> []"
  by (cases ls) (auto simp: Let_def)

lemma rendered_lines:
  "split_lines (transformToGitConflicts s) = transform_lines False (split_lines s)"
  unfolding transformToGitConflicts_def
  using split_lines_nonempty[of s] split_lines_no_lf[of s]
  by (intro split_join_lines transform_nonempty transform_no_lf)

section \<open>A protected field in the returned document\<close>

text \<open>
  Claim C4 says that for every protected key the merged document has the value of
  the current document, whatever the incoming document supplies. The merged
  object has it, and \<^verbatim>\<open>merge\<close> sets \<^verbatim>\<open>result[key] = currentJson[key]\<close> to that end
  (its comment: leaving the current value). The document that \<^verbatim>\<open>merge\<close> returns
  is the serialisation of that object passed through \<^verbatim>\<open>transformToGitConflicts\<close>,
  and there the code slips: the test \<^verbatim>\<open>line.includes('"conf-start::')\<close> is meant for
  the lines of sentinel keys, but it holds for every line in which a double quote
  is followed by that text, the line of a member whose string value starts with it
  included. In the run below the current manifest is
  \<^verbatim>\<open>{"name": "app", "description": "conf-start:: notes"}\<close> and the incoming one is
  \<^verbatim>\<open>{"name": "template", "description": "A template"}\<close>: no value diverges under a
  merge field, yet the line of the protected field \<^verbatim>\<open>description\<close> is replaced
  by the delimiter \<^verbatim>\<open><<<<<<< Local Package\<close>. The returned document has no
  \<^verbatim>\<open>description\<close> any more, while the current document has one.
\<close>

theorem protected_field_lost_in_returned_document:
  \<open>merge (parse_manifests
            [JObj [(''name'', JStr ''app''), (''description'', JStr ''conf-start:: notes'')],
             JObj [(''name'', JStr ''template''), (''description'', JStr ''A template'')]])
         (manifest_text (JObj [(''name'', JStr ''app''), (''description'', JStr ''conf-start:: notes'')]))
         (manifest_text (JObj [(''name'', JStr ''template''), (''description'', JStr ''A template'')]))
         logger
     = (join [lf] [''{'', ''  "name": "app",'', ''<<<<<<< Local Package'', ''}''], logger)
   \<and> manifest_text (JObj [(''name'', JStr ''app''), (''description'', JStr ''conf-start:: notes'')])
     = join [lf] [''{'', ''  "name": "app",'', ''  "description": "conf-start:: notes"'', ''}'']
   \<and> \<not> str_includes (join [lf] [''{'', ''  "name": "app",'', ''<<<<<<< Local Package'', ''}''])
         ''"description"''\<close>
  by (simp add: text_eval merge_eval)

section \<open>Rendering a conflict between values of several lines\<close>

text \<open>
  Claim C5 says that the rendering of a single divergent sub-key gives one pair of
  delimiters whose local branch holds the current value under the original key
  and whose template branch holds the incoming value, with the commas right.
  \<^verbatim>\<open>transformToGitConflicts\<close> attempts this one line at a time: on the line that
  carries the \<^verbatim>\<open>curr::\<close> or \<^verbatim>\<open>tmpl::\<close> key it drops the marker, removes the last comma
  and appends a comma when a member follows. It misses the values that
  \<^verbatim>\<open>JSON.stringify\<close> writes on several lines, an object or an array with members:
  the line of the key then ends with the opening bracket, the line found by
  \<^verbatim>\<open>findNextNonConflictLine\<close> is the first member of the value itself, so a comma is
  put behind the bracket, and the closing line of the value keeps the comma that
  separated the sentinels. In the run below the current manifest is
  \<^verbatim>\<open>{"scripts": {"build": {"cmd": "tsc"}}}\<close> and the incoming one is
  \<^verbatim>\<open>{"scripts": {"build": {"cmd": "vite"}}}\<close>, with the single divergent sub-key
  \<^verbatim>\<open>build\<close>. Neither branch holds its value: the local branch reads
  \<^verbatim>\<open>"build": {,\<close> and ends with \<^verbatim>\<open>},\<close> although nothing follows it in the object, and
  the template branch likewise.
\<close>

theorem conflict_of_object_values_is_misrendered:
  \<open>merge (parse_manifests
            [JObj [(''scripts'', JObj [(''build'', JObj [(''cmd'', JStr ''tsc'')])])],
             JObj [(''scripts'', JObj [(''build'', JObj [(''cmd'', JStr ''vite'')])])]])
         (manifest_text (JObj [(''scripts'', JObj [(''build'', JObj [(''cmd'', JStr ''tsc'')])])]))
         (manifest_text (JObj [(''scripts'', JObj [(''build'', JObj [(''cmd'', JStr ''vite'')])])]))
         logger
     = (join [lf]
          [''{'',
           ''  "scripts": {'',
           ''<<<<<<< Local Package'',
           ''    "build": {,'',
           ''      "cmd": "tsc"'',
           ''    },'',
           ''======='',
           ''    "build": {, // From template'',
           ''      "cmd": "vite"'',
           ''    },'',
           ''>>>>>>> Template'',
           ''  }'',
           ''}''], logger)
   \<and> serializeJSONProperty ''  '' ''    '' (JObj [(''cmd'', JStr ''tsc'')])
     = Some (join [lf] [''{'', ''      "cmd": "tsc"'', ''    }''])\<close>
  by (simp add: text_eval merge_eval Let_def)

section \<open>A new sub-key with an inherited name\<close>

text \<open>
  Claim C7 says that a sub-key of a merge field that the incoming object has and
  the current object lacks is added with the incoming value, without a conflict.
  The code means to do so (its comment on that branch: new key from template, add
  it), but it tests absence with \<^verbatim>\<open>!(subKey in mergedObject)\<close>, and \<^verbatim>\<open>in\<close> is also true
  for the names every object inherits from \<^verbatim>\<open>Object.prototype\<close>. In the run below
  the current manifest is \<^verbatim>\<open>{"scripts": {"dev": "vite"}}\<close> and the incoming one is
  \<^verbatim>\<open>{"scripts": {"dev": "vite", "constructor": "node build.js"}}\<close>. The script
  \<^verbatim>\<open>constructor\<close> is absent from the current object; the code compares the
  inherited function with the incoming value, finds them different and records a
  conflict: the returned document holds a pair of delimiters with an empty local
  branch, where the claim has the member \<^verbatim>\<open>"constructor": "node build.js"\<close> and no
  conflict.
\<close>

theorem inherited_name_is_recorded_as_conflict:
  \<open>merge (parse_manifests
            [JObj [(''scripts'', JObj [(''dev'', JStr ''vite'')])],
             JObj [(''scripts'', JObj [(''dev'', JStr ''vite''), (''constructor'', JStr ''node build.js'')])]])
         (manifest_text (JObj [(''scripts'', JObj [(''dev'', JStr ''vite'')])]))
         (manifest_text (JObj [(''scripts'', JObj [(''dev'', JStr ''vite''), (''constructor'', JStr ''node build.js'')])]))
         logger
     = (join [lf]
          [''{'',
           ''  "scripts": {'',
           ''    "dev": "vite",'',
           ''<<<<<<< Local Package'',
           ''======='',
           ''    "constructor": "node build.js" // From template'',
           ''>>>>>>> Template'',
           ''  }'',
           ''}''], logger)
   \<and> map_of [(''dev'', JStr ''vite'')] ''constructor'' = None\<close>
  by (simp add: text_eval merge_eval)

section \<open>Order of the top-level keys of the returned document\<close>

text \<open>The example used below, evaluated step by step.\<close>

lemma example_marked_text: \<open>marked_text (JObj [(''name'', JStr ''app''), (''scripts'', JObj [(''dev'', JStr ''vite'')])]) (JObj [(''type'', JStr ''module''), (''name'', JStr ''template''),
             (''scripts'', JObj [(''dev'', JStr ''next dev'')]), (''license'', JStr ''MIT'')])
      = join [lf]
          [''{'',
           ''  "name": "app",'',
           ''  "scripts": {'',
           ''    "conf-start::00": "",'',
           ''    "curr::dev": "vite",'',
           ''    "conf-mid::00": "",'',
           ''    "tmpl::dev": "next dev",'',
           ''    "conf-end::00": ""'',
           ''  },'',
           ''  "type": "module"'',
           ''}'']\<close>
    by (simp add: marked_text_def text_eval merge_eval)


lemma example_parse_current:
  "parse_manifests [JObj [(''name'', JStr ''app''), (''scripts'', JObj [(''dev'', JStr ''vite'')])], JObj [(''type'', JStr ''module''), (''name'', JStr ''template''),
             (''scripts'', JObj [(''dev'', JStr ''next dev'')]), (''license'', JStr ''MIT'')]] (manifest_text (JObj [(''name'', JStr ''app''), (''scripts'', JObj [(''dev'', JStr ''vite'')])])) = Inr (JObj [(''name'', JStr ''app''), (''scripts'', JObj [(''dev'', JStr ''vite'')])])"
  by (simp add: text_eval quoteJSONString_def quote_char_def char_defs)

lemma example_lines: \<open>list_all (\<lambda>l. top_level_line l \<longrightarrow> \<not> sentinel_line l)
       (split_lines (join [lf]
          [''{'',
           ''  "name": "app",'',
           ''  "scripts": {'',
           ''    "conf-start::00": "",'',
           ''    "curr::dev": "vite",'',
           ''    "conf-mid::00": "",'',
           ''    "tmpl::dev": "next dev",'',
           ''    "conf-end::00": ""'',
           ''  },'',
           ''  "type": "module"'',
           ''}'']))\<close>
    by (simp add: top_level_line_def sentinel_line_def delimiter_line_def trim_def is_ws_def char_defs)


lemma example_rendered: \<open>transformToGitConflicts (join [lf]
          [''{'',
           ''  "name": "app",'',
           ''  "scripts": {'',
           ''    "conf-start::00": "",'',
           ''    "curr::dev": "vite",'',
           ''    "conf-mid::00": "",'',
           ''    "tmpl::dev": "next dev",'',
           ''    "conf-end::00": ""'',
           ''  },'',
           ''  "type": "module"'',
           ''}''])
     = join [lf]
          [''{'',
           ''  "name": "app",'',
           ''  "scripts": {'',
           ''<<<<<<< Local Package'',
           ''    "dev": "vite"'',
           ''======='',
           ''    "dev": "next dev" // From template'',
           ''>>>>>>> Template'',
           ''  },'',
           ''  "type": "module"'',
           ''}'']\<close>
    by (simp add: text_eval char_defs)


lemma example_parse_incoming:
  "parse_manifests [JObj [(''name'', JStr ''app''), (''scripts'', JObj [(''dev'', JStr ''vite'')])], JObj [(''type'', JStr ''module''), (''name'', JStr ''template''),
             (''scripts'', JObj [(''dev'', JStr ''next dev'')]), (''license'', JStr ''MIT'')]] (manifest_text (JObj [(''type'', JStr ''module''), (''name'', JStr ''template''),
             (''scripts'', JObj [(''dev'', JStr ''next dev'')]), (''license'', JStr ''MIT'')])) = Inr (JObj [(''type'', JStr ''module''), (''name'', JStr ''template''),
             (''scripts'', JObj [(''dev'', JStr ''next dev'')]), (''license'', JStr ''MIT'')])"
  by (simp add: text_eval quoteJSONString_def quote_char_def char_defs)

lemma example_well_formed:  "distinct (map fst [(''type'', JStr ''module''), (''name'', JStr ''template''),
             (''scripts'', JObj [(''dev'', JStr ''next dev'')]), (''license'', JStr ''MIT'')])" "json_compatible (JObj [(''name'', JStr ''app''), (''scripts'', JObj [(''dev'', JStr ''vite'')])])" "json_compatible (JObj [(''type'', JStr ''module''), (''name'', JStr ''template''),
             (''scripts'', JObj [(''dev'', JStr ''next dev'')]), (''license'', JStr ''MIT'')])"
    "\<forall>k \<in> fst ` set [(''type'', JStr ''module''), (''name'', JStr ''template''),
             (''scripts'', JObj [(''dev'', JStr ''next dev'')]), (''license'', JStr ''MIT'')]. \<not> has_own [(''name'', JStr ''app''), (''scripts'', JObj [(''dev'', JStr ''vite'')])] k \<longrightarrow> array_index k = None \<and> k \<noteq> ''__proto__''"
    by (simp_all add: has_own_def array_index_nondigit)



lemma example_keys: "map fst [(''name'', JStr ''app''), (''scripts'', JObj [(''dev'', JStr ''vite'')])] @ filter (\<lambda>k. \<not> has_own [(''name'', JStr ''app''), (''scripts'', JObj [(''dev'', JStr ''vite'')])] k \<and> k \<notin> PACKAGE_JSON_PROTECTED_FIELDS) (map fst [(''type'', JStr ''module''), (''name'', JStr ''template''),
             (''scripts'', JObj [(''dev'', JStr ''next dev'')]), (''license'', JStr ''MIT'')])
      = [''name'', ''scripts'', ''type'']"
    by (simp add: has_own_def PACKAGE_JSON_PROTECTED_FIELDS_def)

lemma example_marked_lines: "list_all (\<lambda>l. top_level_line l \<longrightarrow> \<not> sentinel_line l)
       (split_lines (marked_text (JObj [(''name'', JStr ''app''), (''scripts'', JObj [(''dev'', JStr ''vite'')])]) (JObj [(''type'', JStr ''module''), (''name'', JStr ''template''),
             (''scripts'', JObj [(''dev'', JStr ''next dev'')]), (''license'', JStr ''MIT'')])))"
    unfolding example_marked_text by (rule example_lines)




text \<open>
  Claim C10, as the code has it. Let the current and the incoming text parse to
  manifest objects with JSON-compatible values, where no incoming key is repeated
  and every incoming key that the current document lacks is neither an array index
  nor \<^verbatim>\<open>__proto__\<close>, and let no first line of a top-level member of the serialised
  merged object be a line that \<^verbatim>\<open>transformToGitConflicts\<close> rewrites (one holding a
  double quote followed by \<^verbatim>\<open>conf-start::\<close>, \<^verbatim>\<open>conf-mid::\<close> or \<^verbatim>\<open>conf-end::\<close>, or a key
  starting with \<^verbatim>\<open>tmpl::\<close> or \<^verbatim>\<open>curr::\<close>). Then \<^verbatim>\<open>merge\<close> returns the rendered
  serialisation of the merged object and leaves the logger as it was, and the
  top-level member lines of the returned document are, line by line, those of the
  keys of the current document in their order, followed by those of the
  incoming-only keys that are not protected fields, in their incoming order.
  Conflicts recorded under the merge fields do not change this: no top-level key
  of the current document is moved or dropped.
\<close>

theorem merged_document_key_order:
  assumes "json_parse current = Inr (JObj c)" "json_parse incoming = Inr (JObj i)"
    "distinct (map fst i)" "json_compatible (JObj c)" "json_compatible (JObj i)"
    "\<forall>k \<in> fst ` set i. \<not> has_own c k \<longrightarrow> array_index k = None \<and> k \<noteq> ''__proto__''"
    "list_all (\<lambda>l. top_level_line l \<longrightarrow> \<not> sentinel_line l)
       (split_lines (marked_text (JObj c) (JObj i)))"
  shows "merge json_parse current incoming logger
           = (transformToGitConflicts (marked_text (JObj c) (JObj i)), logger)
         \<and> list_all2 member_line
             (map fst c @ filter (\<lambda>k. \<not> has_own c k \<and> k \<notin> PACKAGE_JSON_PROTECTED_FIELDS) (map fst i))
             (top_level_lines (transformToGitConflicts (marked_text (JObj c) (JObj i))))"
proof -
  from merged_object_key_order[OF assms(3-6)] obtain r where
    r: "merge_json (JObj c) (JObj i) = Inr r"
    and keys: "map fst (written r)
       = map fst c @ filter (\<lambda>k. \<not> has_own c k \<and> k \<notin> PACKAGE_JSON_PROTECTED_FIELDS) (map fst i)"
    by blast
  obtain s where s: "json_stringify_indent2 (JObj r) = Some s"
    by (auto simp: json_stringify_indent2_def Let_def)
  have marked: "marked_text (JObj c) (JObj i) = s" using r s by (simp add: marked_text_def)
  have run: "merge json_parse current incoming logger = (transformToGitConflicts s, logger)"
    using assms(1,2) r s by (simp add: merge_def merge_try_def merge_parsed_def)
  from document_lines[OF s] have
    shape: "list_all (\<lambda>l. top_level_line l \<or> inner_line l) (split_lines s)"
    and members: "list_all2 member_line (map fst (written r)) (filter top_level_line (split_lines s))"
    by simp_all
  have "list_all (\<lambda>l. if top_level_line l then \<not> sentinel_line l else inner_line l) (split_lines s)"
    using shape assms(7) marked by (auto simp: list_all_iff)
  then have "filter top_level_line (transform_lines False (split_lines s))
      = filter top_level_line (split_lines s)"
    by (rule transform_keeps_top_level)
  then have "top_level_lines (transformToGitConflicts s) = filter top_level_line (split_lines s)"
    by (simp add: top_level_lines_def rendered_lines)
  with members keys run marked show ?thesis by simp
qed

theorem merged_document_key_order_witness:
  \<open>merge (parse_manifests
            [JObj [(''name'', JStr ''app''), (''scripts'', JObj [(''dev'', JStr ''vite'')])],
             JObj [(''type'', JStr ''module''), (''name'', JStr ''template''),
                   (''scripts'', JObj [(''dev'', JStr ''next dev'')]), (''license'', JStr ''MIT'')]])
         (manifest_text (JObj [(''name'', JStr ''app''), (''scripts'', JObj [(''dev'', JStr ''vite'')])]))
         (manifest_text (JObj [(''type'', JStr ''module''), (''name'', JStr ''template''),
                   (''scripts'', JObj [(''dev'', JStr ''next dev'')]), (''license'', JStr ''MIT'')]))
         \<lparr>verbose = False, logs = [], console = []\<rparr>
     = (join [lf]
          [''{'',
           ''  "name": "app",'',
           ''  "scripts": {'',
           ''<<<<<<< Local Package'',
           ''    "dev": "vite"'',
           ''======='',
           ''    "dev": "next dev" // From template'',
           ''>>>>>>> Template'',
           ''  },'',
           ''  "type": "module"'',
           ''}''], \<lparr>verbose = False, logs = [], console = []\<rparr>)
   \<and> list_all2 member_line [''name'', ''scripts'', ''type'']
        (top_level_lines (join [lf]
          [''{'',
           ''  "name": "app",'',
           ''  "scripts": {'',
           ''<<<<<<< Local Package'',
           ''    "dev": "vite"'',
           ''======='',
           ''    "dev": "next dev" // From template'',
           ''>>>>>>> Template'',
           ''  },'',
           ''  "type": "module"'',
           ''}'']))\<close>
proof -
  let ?c = "[(''name'', JStr ''app''), (''scripts'', JObj [(''dev'', JStr ''vite'')])]"
  let ?i = "[(''type'', JStr ''module''), (''name'', JStr ''template''),
             (''scripts'', JObj [(''dev'', JStr ''next dev'')]), (''license'', JStr ''MIT'')]"
  from merged_document_key_order
    [where json_parse = "parse_manifests [JObj ?c, JObj ?i]"
       and current = "manifest_text (JObj ?c)" and incoming = "manifest_text (JObj ?i)"
       and c = ?c and i = ?i and logger = "\<lparr>verbose = False, logs = [], console = []\<rparr>",
     OF example_parse_current example_parse_incoming example_well_formed example_marked_lines]
  show ?thesis unfolding example_marked_text example_rendered example_keys .
qed

text \<open>
  The claim as stated fails for an incoming-only protected key: with current
  \<^verbatim>\<open>{"name": "a"}\<close> and incoming \<^verbatim>\<open>{"license": "MIT"}\<close> the merged object holds
  \<^verbatim>\<open>license\<close> with the value \<^verbatim>\<open>undefined\<close>, which is not written, and the returned
  document is \<^verbatim>\<open>{"name": "a"}\<close>: its key sequence is not the current keys followed
  by the incoming-only keys.
\<close>

theorem merged_key_order_counterexample:
  \<open>merge_json (JObj [(''name'', JStr ''a'')]) (JObj [(''license'', JStr ''MIT'')])
     = Inr [(''name'', JStr ''a''), (''license'', JUndefined)]
   \<and> map fst (written [(''name'', JStr ''a''), (''license'', JUndefined)]) = [''name'']
   \<and> json_stringify_indent2 (JObj [(''name'', JStr ''a''), (''license'', JUndefined)])
       = Some (''{'' @ [lf] @ ''  '' @ [dq] @ ''name'' @ [dq] @ '': '' @ [dq] @ ''a'' @ [dq] @ [lf] @ ''}'')
   \<and> [''name''] \<noteq> map fst [(''name'', JStr ''a'')] @ map fst [(''license'', JStr ''MIT'')]
   \<and> merge (parse_manifests [JObj [(''name'', JStr ''a'')], JObj [(''license'', JStr ''MIT'')]])
            (manifest_text (JObj [(''name'', JStr ''a'')]))
            (manifest_text (JObj [(''license'', JStr ''MIT'')]))
            \<lparr>verbose = False, logs = [], console = []\<rparr>
       = (join [lf] [''{'', ''  "name": "a"'', ''}''], \<lparr>verbose = False, logs = [], console = []\<rparr>)
   \<and> top_level_lines (join [lf] [''{'', ''  "name": "a"'', ''}'']) = [''  "name": "a"'']
   \<and> \<not> list_all2 member_line
          (map fst [(''name'', JStr ''a'')] @ map fst [(''license'', JStr ''MIT'')])
          (top_level_lines (join [lf] [''{'', ''  "name": "a"'', ''}'']))\<close>
  by (simp add: text_eval merge_eval written_def top_level_lines_def top_level_line_def)


end
